theory Spec2Isabelle
  imports Complex_Main "HOL-Library.Multiset" "HOL-Library.Char_ord" "HOL-Library.List_Lexorder"
begin

section \<open>Numbers, instants and durations\<close>

text \<open>
  A JavaScript number is modelled by an exact real; \<open>NaN\<close> is written out where the
  code can produce it, and the infinities are not modelled. The source computes in doubles.
  On whole numbers of at most \<open>MAX_SAFE_INTEGER\<close> in size the sum, the difference and
  the product of doubles are exact when the result is in that range too, and the ceiling of
  a quotient of two such numbers is the ceiling of the exact quotient. The theorems on
  instants carry the bounds that keep the whole numbers of the source in that range, so
  that the exact arithmetic below is the arithmetic of the code there. The one operation
  on instants whose operands need not be whole is the difference of a time and a duration
  in \<open>getIndexSet\<close>; the rounding of its result to a double is a parameter \<open>fl\<close>
  of the model.
\<close>

definition MAX_SAFE_INTEGER :: int where
  "MAX_SAFE_INTEGER = 9007199254740991"

text \<open>
  An instant is a \<open>Date\<close> with a time value: a whole number of milliseconds since the
  epoch, at most \<open>MAX_DATE\<close> in size. \<open>new Date(x)\<close> clips a number in that range to
  an integer by truncating toward zero; for a number outside the range, and for \<open>NaN\<close>,
  the result is an invalid date (\<open>None\<close>), which reads back as \<open>NaN\<close>.
\<close>

definition MAX_DATE :: int where
  "MAX_DATE = 8640000000000000"

definition new_Date :: "real \<Rightarrow> int option" where
  "new_Date x =
     (if \<bar>x\<bar> \<le> of_int MAX_DATE then Some (if 0 \<le> x then \<lfloor>x\<rfloor> else \<lceil>x\<rceil>) else None)"

text \<open>
  \<open>new Time(d)\<close> for a number \<open>d\<close>; \<open>+t\<close> reads the stored \<open>Date\<close> back.
  A \<open>Time\<close> that is an argument of a function below is a valid one, given by its
  time value.
\<close>

definition new_Time :: "real \<Rightarrow> int option" where
  "new_Time d = new_Date d"

subsection \<open>Decimal numerals\<close>

definition is_digit :: "char \<Rightarrow> bool" where
  "is_digit c = (c \<in> set ''0123456789'')"

definition digit_val :: "char \<Rightarrow> nat" where
  "digit_val c = of_char c - 48"

definition digit_char :: "nat \<Rightarrow> char" where
  "digit_char n = ''0123456789'' ! n"

text \<open>The value of a run of decimal digits, read left to right.\<close>

fun digits_val :: "nat \<Rightarrow> string \<Rightarrow> nat" where
  "digits_val acc [] = acc"
| "digits_val acc (c # cs) = digits_val (10 * acc + digit_val c) cs"

text \<open>
  \<open>parseInt(s, 10)\<close>: leading white space is skipped, one sign is read, then the longest
  run of digits; \<open>None\<close> is \<open>NaN\<close> (no digit at that place).
\<close>

definition is_space :: "char \<Rightarrow> bool" where
  "is_space c = (c \<in> {CHR '' '', CHR 0x09, CHR 0x0A, CHR 0x0B, CHR 0x0C, CHR 0x0D})"

definition parseInt :: "string \<Rightarrow> int option" where
  "parseInt s =
     (let t = dropWhile is_space s;
          neg = (t \<noteq> [] \<and> hd t = CHR ''-'');
          u = (if t \<noteq> [] \<and> (hd t = CHR ''-'' \<or> hd t = CHR ''+'') then tl t else t);
          ds = takeWhile is_digit u
      in if ds = [] then None
         else Some (if neg then - int (digits_val 0 ds) else int (digits_val 0 ds)))"

text \<open>
  The decimal numeral of an integer. JavaScript prints a whole number of at most
  \<open>MAX_SAFE_INTEGER\<close> in size as this numeral. How it prints the other numbers
  (\<open>Number.prototype.toString\<close>, with a fraction or an exponent) is not modelled: the
  functions that print a number that need not be whole take the printer as a parameter
  \<open>str\<close>. The closed examples, where every printed number is whole, take
  \<open>whole_number_string\<close> for it.
\<close>

fun nat_string :: "nat \<Rightarrow> string" where
  "nat_string n = (if n < 10 then [digit_char n] else nat_string (n div 10) @ [digit_char (n mod 10)])"

declare nat_string.simps [simp del]

definition int_string :: "int \<Rightarrow> string" where
  "int_string i = (if i < 0 then CHR ''-'' # nat_string (nat (- i)) else nat_string (nat i))"

definition whole_number_string :: "real \<Rightarrow> string" where
  "whole_number_string x = int_string \<lfloor>x\<rfloor>"

subsection \<open>Duration\<close>

text \<open>
  \<open>SHORT_UNITS\<close> of duration.js: the length of each one-letter unit in milliseconds.
\<close>

definition SHORT_UNITS :: "char \<Rightarrow> real option" where
  "SHORT_UNITS u =
     (if u = CHR ''n'' then Some (1 / 1000 / 1000)
      else if u = CHR ''u'' then Some (1 / 1000)
      else if u = CHR ''l'' then Some 1
      else if u = CHR ''s'' then Some 1000
      else if u = CHR ''m'' then Some (1000 * 60)
      else if u = CHR ''h'' then Some (1000 * 60 * 60)
      else if u = CHR ''d'' then Some (1000 * 60 * 60 * 24)
      else if u = CHR ''w'' then Some (1000 * 60 * 60 * 24 * 7)
      else None)"

text \<open>
  A \<open>Duration\<close> keeps the string it was built from (\<open>_string\<close>, absent when built
  from a number) and its length in milliseconds (\<open>_duration\<close>).
\<close>

record duration =
  dur_string :: "string option"
  dur_ms :: real

text \<open>
  The constructor's regular expression \<open>/([0-9]+)([nulsmhdw])/\<close> is not anchored:
  \<open>exec\<close> returns the leftmost place where a run of digits is followed by a unit
  letter, with the digits and the letter as groups 1 and 2.
\<close>

fun duration_regex_exec :: "string \<Rightarrow> (string \<times> char) option" where
  "duration_regex_exec [] = None"
| "duration_regex_exec (c # cs) =
     (let ds = takeWhile is_digit (c # cs); rest = dropWhile is_digit (c # cs)
      in if ds \<noteq> [] \<and> rest \<noteq> [] \<and> hd rest \<in> set ''nulsmhdw''
         then Some (ds, hd rest)
         else duration_regex_exec cs)"

text \<open>
  \<open>new Duration(arg1)\<close> for a string. When the expression does not match, the source
  leaves \<open>_duration\<close> undefined, so that every later use of the value is \<open>NaN\<close>;
  the model returns \<open>None\<close> there.
\<close>

definition duration_of_string :: "string \<Rightarrow> duration option" where
  "duration_of_string s =
     (case duration_regex_exec s of
        None \<Rightarrow> None
      | Some (ds, u) \<Rightarrow>
          (case SHORT_UNITS u of
             None \<Rightarrow> None
           | Some len \<Rightarrow> Some \<lparr>dur_string = Some s, dur_ms = of_nat (digits_val 0 ds) * len\<rparr>))"

text \<open>\<open>new Duration(arg1)\<close> for a number of milliseconds.\<close>

definition duration_of_number :: "real \<Rightarrow> duration" where
  "duration_of_number x = \<lparr>dur_string = None, dur_ms = x\<rparr>"

section \<open>Period\<close>

record period =
  p_frequency :: duration
  p_offset :: int

text \<open>
  \<open>new Period(frequency, offset)\<close>: the offset is kept as the time value of the given
  \<open>Time\<close> (a valid one here), and a missing offset is the epoch.
\<close>

definition new_Period :: "duration \<Rightarrow> int option \<Rightarrow> period" where
  "new_Period f off = \<lparr>p_frequency = f, p_offset = (case off of Some t \<Rightarrow> t | None \<Rightarrow> 0)\<rparr>"

definition freq_ms :: "period \<Rightarrow> real" where
  "freq_ms p = dur_ms (p_frequency p)"

text \<open>
  \<open>isAligned\<close>: \<open>((+t - +offset) / +frequency) % 1 === 0\<close>. With a zero frequency the
  quotient is infinite or \<open>NaN\<close>, its remainder is \<open>NaN\<close>, and the test is false.
\<close>

definition isAligned :: "period \<Rightarrow> int \<Rightarrow> bool" where
  "isAligned p t =
     (let q = (of_int t - of_int (p_offset p)) / freq_ms p
      in freq_ms p \<noteq> 0 \<and> of_int \<lfloor>q\<rfloor> = q)"

text \<open>
  \<open>next\<close>. The result is a \<open>Time\<close>, so the candidate is clipped to whole
  milliseconds, and is an invalid date outside the range of \<open>Date\<close>. With a zero
  frequency the candidate is \<open>NaN\<close> and the result is an invalid date as well.
\<close>

definition period_next :: "period \<Rightarrow> int \<Rightarrow> int option" where
  "period_next p t =
     (if freq_ms p = 0 then None
      else
        let index = \<lceil>(of_int t - of_int (p_offset p)) / freq_ms p\<rceil>;
            nxt = of_int index * freq_ms p + of_int (p_offset p)
        in if nxt = of_int t then new_Time (nxt + freq_ms p) else new_Time nxt)"

section \<open>Window\<close>

text \<open>
  \<open>Duration.toString\<close>: the string the duration was built from when there is one, and
  otherwise the number of milliseconds, as \<open>str\<close> prints it, followed by \<open>ms\<close>.
\<close>

definition duration_toString :: "(real \<Rightarrow> string) \<Rightarrow> duration \<Rightarrow> string" where
  "duration_toString str d =
     (case dur_string d of
        Some s \<Rightarrow> if s \<noteq> [] then s else str (dur_ms d) @ ''ms''
      | None \<Rightarrow> str (dur_ms d) @ ''ms'')"

text \<open>
  \<open>Period.toString\<close>: the offset, a whole number of milliseconds in the range of
  \<open>Date\<close>, is printed only when it is not zero.
\<close>

definition period_toString :: "(real \<Rightarrow> string) \<Rightarrow> period \<Rightarrow> string" where
  "period_toString str p =
     (if p_offset p \<noteq> 0
      then duration_toString str (p_frequency p) @ ''+'' @ int_string (p_offset p)
      else duration_toString str (p_frequency p))"

record window =
  w_duration :: duration
  w_period :: period

text \<open>\<open>new Window(d, period)\<close>: without a period the window repeats at its duration.\<close>

definition new_Window :: "duration \<Rightarrow> period option \<Rightarrow> window" where
  "new_Window d p =
     \<lparr>w_duration = d, w_period = (case p of Some q \<Rightarrow> q | None \<Rightarrow> new_Period d None)\<rparr>"

definition window_toString :: "(real \<Rightarrow> string) \<Rightarrow> window \<Rightarrow> string" where
  "window_toString str w =
     (if freq_ms (w_period w) = dur_ms (w_duration w)
      then period_toString str (w_period w)
      else duration_toString str (w_duration w) @ ''@'' @ period_toString str (w_period w))"

text \<open>
  The loop of \<open>getIndexSet\<close> for a positive frequency \<open>f\<close>: it collects
  \<open>periodIndex\<close> and adds one while \<open>periodIndex * f \<le> t2\<close>.
\<close>

function index_loop :: "real \<Rightarrow> int \<Rightarrow> int \<Rightarrow> int list" where
  "index_loop f t2 k =
     (if 0 < f \<and> of_int k * f \<le> of_int t2 then k # index_loop f t2 (k + 1) else [])"
  by pat_completeness auto
termination
proof (relation "measure (\<lambda>(f, t2, k). nat (\<lfloor>of_int t2 / f\<rfloor> - k + 1))")
  show "wf (measure (\<lambda>(f, t2, k). nat (\<lfloor>of_int t2 / f\<rfloor> - k + 1)))"
    by simp
next
  fix f :: real and t2 k :: int
  assume h: "0 < f \<and> of_int k * f \<le> of_int t2"
  then have "of_int k \<le> of_int t2 / f"
    by (simp add: pos_le_divide_eq)
  then have "k \<le> \<lfloor>of_int t2 / f\<rfloor>"
    by (simp add: le_floor_iff)
  then show "((f, t2, k + 1), (f, t2, k)) \<in> measure (\<lambda>(f, t2, k). nat (\<lfloor>of_int t2 / f\<rfloor> - k + 1))"
    by simp
qed

declare index_loop.simps [simp del]

text \<open>
  The values of \<open>periodIndex\<close> that \<open>getIndexSet\<close> visits for the instants
  \<open>t1\<close> and \<open>t2\<close> (both the given \<open>Time\<close>, or the ends of the given
  \<open>TimeRange\<close>), in the order of the loop. The scan starts from the difference
  \<open>+t1 - +this._duration\<close>, a double: \<open>fl\<close> is the rounding of the exact difference
  to the nearest double. When \<open>scanBegin\<close> is an invalid date (the start of the scan
  or its \<open>next\<close> is outside the range of \<open>Date\<close>, or the frequency is zero),
  \<open>periodIndex\<close> is \<open>NaN\<close>, every comparison with it is false and the loop body
  never runs. With a negative frequency a loop that starts never ends: \<open>None\<close>.
\<close>

definition period_indexes :: "(real \<Rightarrow> real) \<Rightarrow> window \<Rightarrow> int \<Rightarrow> int \<Rightarrow> int list option" where
  "period_indexes fl w t1 t2 =
     (case new_Time (fl (of_int t1 - dur_ms (w_duration w))) of
        None \<Rightarrow> Some []
      | Some b \<Rightarrow>
          (case period_next (w_period w) b of
             None \<Rightarrow> Some []
           | Some scanBegin \<Rightarrow>
               (let f = freq_ms (w_period w); periodIndex = \<lceil>of_int scanBegin / f\<rceil>
                in if 0 < f then Some (index_loop f t2 periodIndex)
                   else if of_int periodIndex * f \<le> of_int t2 then None
                   else Some [])))"

text \<open>
  \<open>getIndexSet\<close>: one \<open>Index\<close> per visited \<open>periodIndex\<close>, an \<open>Index\<close> being
  modelled by its string \<open>prefix-periodIndex\<close>, with \<open>periodIndex\<close> printed as the
  numeral of a whole number. The strings of different integers differ, so the ordered set
  holds them in the order of insertion.
\<close>

definition index_string :: "(real \<Rightarrow> string) \<Rightarrow> window \<Rightarrow> int \<Rightarrow> string" where
  "index_string str w k = window_toString str w @ ''-'' @ int_string k"

definition getIndexSet ::
    "(real \<Rightarrow> real) \<Rightarrow> (real \<Rightarrow> string) \<Rightarrow> window \<Rightarrow> int \<Rightarrow> int \<Rightarrow> string list option" where
  "getIndexSet fl str w t1 t2 = map_option (map (index_string str w)) (period_indexes fl w t1 t2)"
section \<open>Field values and the reduction functions\<close>

text \<open>
  A field value is a number, \<open>NaN\<close>, \<open>null\<close> or \<open>undefined\<close> (strings and nested
  structures are not modelled). The last three are the missing values.
\<close>

datatype 'a jsval = Num 'a | NaN | Null | Undefined

text \<open>\<open>Util.isValid\<close>: neither \<open>undefined\<close>, nor \<open>NaN\<close>, nor \<open>null\<close>.\<close>

fun isValid :: "'a jsval \<Rightarrow> bool" where
  "isValid (Num x) = True"
| "isValid NaN = False"
| "isValid Null = False"
| "isValid Undefined = False"

text \<open>
  Arithmetic converts its operands to numbers first: \<open>null\<close> is \<open>0\<close>,
  \<open>undefined\<close> is \<open>NaN\<close> (\<open>None\<close> below), and \<open>NaN\<close> is contagious.
\<close>

fun toNumber :: "real jsval \<Rightarrow> real option" where
  "toNumber (Num x) = Some x"
| "toNumber Null = Some 0"
| "toNumber NaN = None"
| "toNumber Undefined = None"

fun ofNumber :: "real option \<Rightarrow> real jsval" where
  "ofNumber (Some x) = Num x"
| "ofNumber None = NaN"

definition js_plus :: "real jsval \<Rightarrow> real jsval \<Rightarrow> real jsval" where
  "js_plus a b =
     (case (toNumber a, toNumber b) of (Some x, Some y) \<Rightarrow> Num (x + y) | _ \<Rightarrow> NaN)"

definition js_minus :: "real jsval \<Rightarrow> real jsval \<Rightarrow> real jsval" where
  "js_minus a b =
     (case (toNumber a, toNumber b) of (Some x, Some y) \<Rightarrow> Num (x - y) | _ \<Rightarrow> NaN)"

definition js_times :: "real jsval \<Rightarrow> real jsval \<Rightarrow> real jsval" where
  "js_times a b =
     (case (toNumber a, toNumber b) of (Some x, Some y) \<Rightarrow> Num (x * y) | _ \<Rightarrow> NaN)"

text \<open>
  Division: \<open>0 / 0\<close> is \<open>NaN\<close>. A non-zero number over zero is an infinity in
  JavaScript, which the model does not have; the functions below reach a zero divisor
  only with a zero dividend (lemmas \<open>avg_divisor\<close> and \<open>stdev_divisor\<close>).
\<close>

definition js_divide :: "real jsval \<Rightarrow> real jsval \<Rightarrow> real jsval" where
  "js_divide a b =
     (case (toNumber a, toNumber b) of
        (Some x, Some y) \<Rightarrow> if y = 0 then NaN else Num (x / y)
      | _ \<Rightarrow> NaN)"

text \<open>\<open>Math.pow(x, 2)\<close> and \<open>Math.sqrt(x)\<close>.\<close>

definition Math_pow2 :: "real jsval \<Rightarrow> real jsval" where
  "Math_pow2 a = (case toNumber a of Some x \<Rightarrow> Num (x ^ 2) | None \<Rightarrow> NaN)"

definition Math_sqrt :: "real jsval \<Rightarrow> real jsval" where
  "Math_sqrt a = (case toNumber a of Some x \<Rightarrow> if x < 0 then NaN else Num (sqrt x) | None \<Rightarrow> NaN)"

subsection \<open>Cleaning strategies\<close>

text \<open>
  The five members of \<open>filter\<close>. A strategy returns the cleaned array, or \<open>null\<close>
  (\<open>None\<close>) to make the whole reduction \<open>null\<close>.
\<close>

datatype clean = keepMissing | ignoreMissing | zeroMissing | propagateMissing | noneIfEmpty

fun apply_clean :: "clean \<Rightarrow> ('a::zero) jsval list \<Rightarrow> 'a jsval list option" where
  "apply_clean keepMissing values = Some values"
| "apply_clean ignoreMissing values = Some (filter isValid values)"
| "apply_clean zeroMissing values = Some (map (\<lambda>v. if isValid v then v else Num 0) values)"
| "apply_clean propagateMissing values =
     (if length (filter isValid values) = length values then Some values else None)"
| "apply_clean noneIfEmpty values = (if length values = 0 then None else Some values)"

subsection \<open>avg and stdev\<close>

text \<open>
  \<open>_.reduce(cleanValues, (a, b) => a + b, 0)\<close> is a left fold from \<open>0\<close>; the
  \<open>forEach\<close> of \<open>stdev\<close> that adds to \<open>sums\<close> is one as well.
\<close>

definition avg :: "clean \<Rightarrow> real jsval list \<Rightarrow> real jsval" where
  "avg c values =
     (case apply_clean c values of
        None \<Rightarrow> Null
      | Some cleanValues \<Rightarrow>
          (let total = foldl js_plus (Num 0) cleanValues
           in js_divide total (Num (of_nat (length cleanValues)))))"

definition stdev :: "clean \<Rightarrow> real jsval list \<Rightarrow> real jsval" where
  "stdev c values =
     (case apply_clean c values of
        None \<Rightarrow> Null
      | Some cleanValues \<Rightarrow>
          (let mean = avg c cleanValues;
               sumsq = foldl (\<lambda>acc v. js_plus acc (Math_pow2 (js_minus v mean))) (Num 0) cleanValues
           in Math_sqrt (js_divide sumsq (Num (of_nat (length values))))))"

text \<open>
  The words of the specification: the sum and the mean of a list of values, in the
  arithmetic above.
\<close>

definition js_sum :: "real jsval list \<Rightarrow> real jsval" where
  "js_sum vs = foldl js_plus (Num 0) vs"

definition js_mean :: "real jsval list \<Rightarrow> real jsval" where
  "js_mean vs = js_divide (js_sum vs) (Num (of_nat (length vs)))"

subsection \<open>median\<close>

text \<open>
  \<open>cleanValues.sort()\<close> has no comparison function: elements are compared by their
  strings, code unit by code unit, and \<open>undefined\<close> goes last. The string of a number
  is the one that \<open>Number.prototype.toString\<close> prints, the parameter \<open>str\<close>; the
  characters of such a string, and of \<open>NaN\<close> and \<open>null\<close>, are single code units.
\<close>

fun string_less :: "string \<Rightarrow> string \<Rightarrow> bool" where
  "string_less [] [] = False"
| "string_less [] (b # ys) = True"
| "string_less (a # xs) [] = False"
| "string_less (a # xs) (b # ys) =
     ((of_char a :: nat) < of_char b \<or> (a = b \<and> string_less xs ys))"

fun js_toString :: "(real \<Rightarrow> string) \<Rightarrow> real jsval \<Rightarrow> string" where
  "js_toString str (Num x) = str x"
| "js_toString str NaN = ''NaN''"
| "js_toString str Null = ''null''"
| "js_toString str Undefined = ''undefined''"

text \<open>\<open>sort_after str x y\<close>: the default comparison puts \<open>x\<close> after \<open>y\<close>.\<close>

fun sort_after :: "(real \<Rightarrow> string) \<Rightarrow> real jsval \<Rightarrow> real jsval \<Rightarrow> bool" where
  "sort_after str Undefined Undefined = False"
| "sort_after str Undefined y = True"
| "sort_after str x Undefined = False"
| "sort_after str x y = string_less (js_toString str y) (js_toString str x)"

text \<open>
  The sort is stable; it is modelled by insertion from the right, each element going in
  front of the first element that sorts after it.
\<close>

fun js_insert :: "(real \<Rightarrow> string) \<Rightarrow> real jsval \<Rightarrow> real jsval list \<Rightarrow> real jsval list" where
  "js_insert str x [] = [x]"
| "js_insert str x (y # ys) =
     (if sort_after str x y then y # js_insert str x ys else x # y # ys)"

definition js_sort :: "(real \<Rightarrow> string) \<Rightarrow> real jsval list \<Rightarrow> real jsval list" where
  "js_sort str xs = foldr (js_insert str) xs []"

text \<open>Reading an array at an index: \<open>undefined\<close> outside its bounds.\<close>

definition js_index :: "'a jsval list \<Rightarrow> int \<Rightarrow> 'a jsval" where
  "js_index xs i = (if 0 \<le> i \<and> i < int (length xs) then xs ! nat i else Undefined)"

definition median :: "(real \<Rightarrow> string) \<Rightarrow> clean \<Rightarrow> real jsval list \<Rightarrow> real jsval" where
  "median str c values =
     (case apply_clean c values of
        None \<Rightarrow> Null
      | Some cleanValues \<Rightarrow>
          (let sorted = js_sort str cleanValues;
               i = int (length sorted) div 2
           in if length sorted mod 2 = 0
              then (let a = js_index sorted i; b = js_index sorted (i - 1)
                    in js_divide (js_plus a b) (Num 2))
              else js_index sorted i))"

text \<open>
  For comparison, the median of a non-empty list of numbers in numeric order.
\<close>

definition numeric_median :: "real list \<Rightarrow> real" where
  "numeric_median xs =
     (let s = sort xs; i = length s div 2
      in if length s mod 2 = 0 then (s ! i + s ! (i - 1)) / 2 else s ! i)"
section \<open>Collection\<close>

text \<open>
  A \<open>Collection\<close> holds the list \<open>_events\<close> and the map \<open>_keyMap\<close> from the
  string of a key to the set of positions of the events with that key. The \<open>Event\<close>
  class is not part of the modelled code: the functions below take \<open>key\<close>, the
  string \<open>e.getKey().toString()\<close> of an event, as a parameter.
\<close>

record 'e collection =
  c_events :: "'e list"
  c_keyMap :: "string \<rightharpoonup> nat set"

datatype error = Error string | TypeError string

text \<open>\<open>buildKeyMap\<close>: one pass over the events with their positions.\<close>

definition keyMap_add :: "(string \<rightharpoonup> nat set) \<Rightarrow> string \<Rightarrow> nat \<Rightarrow> (string \<rightharpoonup> nat set)" where
  "keyMap_add keyMap k i =
     keyMap(k \<mapsto> (case keyMap k of Some indicies \<Rightarrow> insert i indicies | None \<Rightarrow> {i}))"

definition buildKeyMap :: "('e \<Rightarrow> string) \<Rightarrow> 'e list \<Rightarrow> (string \<rightharpoonup> nat set)" where
  "buildKeyMap key events =
     foldl (\<lambda>keyMap (i, e). keyMap_add keyMap (key e) i) Map.empty (zip [0..<length events] events)"

text \<open>The constructor: no argument, or a list of events.\<close>

definition empty_Collection :: "'e collection" where
  "empty_Collection = \<lparr>c_events = [], c_keyMap = Map.empty\<rparr>"

definition new_Collection :: "('e \<Rightarrow> string) \<Rightarrow> 'e list \<Rightarrow> 'e collection" where
  "new_Collection key events = \<lparr>c_events = events, c_keyMap = buildKeyMap key events\<rparr>"

definition clone :: "'e list \<Rightarrow> (string \<rightharpoonup> nat set) \<Rightarrow> 'e collection" where
  "clone events keyMap = \<lparr>c_events = events, c_keyMap = keyMap\<rparr>"

text \<open>
  \<open>atKey\<close>: the events at the positions stored for the key, in ascending position.
  A key that is not in the map gives \<open>undefined\<close>, and calling \<open>map\<close> on it throws.
  Reading the list outside its bounds gives \<open>undefined\<close> (\<open>None\<close>).
\<close>

definition atKey :: "'e collection \<Rightarrow> string \<Rightarrow> error + 'e option list" where
  "atKey c k =
     (case c_keyMap c k of
        None \<Rightarrow> Inl (TypeError ''Cannot read properties of undefined'')
      | Some indexes \<Rightarrow>
          Inr (map (\<lambda>i. if i < length (c_events c) then Some (c_events c ! i) else None)
                 (filter (\<lambda>i. i \<in> indexes) [0..<Suc (Max (insert 0 indexes))])))"

text \<open>
  The \<open>dedup\<close> argument of \<open>addEvent\<close>: absent, \<open>true\<close>, or a function from the
  conflicting events followed by the new one to the event that replaces them.
\<close>

datatype 'e dedup = NoDedup | DedupTrue | DedupWith "'e option list \<Rightarrow> 'e"

definition addEvent :: "('e \<Rightarrow> string) \<Rightarrow> 'e collection \<Rightarrow> 'e \<Rightarrow> 'e dedup \<Rightarrow> error + 'e collection" where
  "addEvent key c event dedup =
     (let k = key event;
          indicies0 = (case c_keyMap c k of Some s \<Rightarrow> s | None \<Rightarrow> {});
          finish = (\<lambda>events e indicies.
             (let events' = events @ [e];
                  indicies' = insert (length events' - 1) indicies
              in Inr (clone events' ((c_keyMap c)(k \<mapsto> indicies')))))
      in case dedup of
           NoDedup \<Rightarrow> finish (c_events c) event indicies0
         | DedupTrue \<Rightarrow>
             (case atKey c k of
                Inl err \<Rightarrow> Inl err
              | Inr conflicts \<Rightarrow>
                  if length conflicts > 0
                  then finish (filter (\<lambda>duplicate. key duplicate \<noteq> key event) (c_events c)) event {}
                  else finish (c_events c) event indicies0)
         | DedupWith f \<Rightarrow>
             (case atKey c k of
                Inl err \<Rightarrow> Inl err
              | Inr conflicts \<Rightarrow>
                  if length conflicts > 0
                  then finish (filter (\<lambda>duplicate. key duplicate \<noteq> key event) (c_events c))
                         (f (conflicts @ [Some event])) {}
                  else finish (c_events c) event indicies0))"

text \<open>
  \<open>removeEvents\<close>: the events at the positions stored for the key are dropped and the
  key leaves the map. For a key that is not in the map, \<open>indices\<close> is \<open>undefined\<close>
  and the first call of the filter's callback throws.
\<close>

definition removeEvents :: "'e collection \<Rightarrow> string \<Rightarrow> error + 'e collection" where
  "removeEvents c k =
     (case c_keyMap c k of
        None \<Rightarrow>
          if c_events c = [] then Inr (clone [] (c_keyMap c))
          else Inl (TypeError ''Cannot read properties of undefined'')
      | Some indices \<Rightarrow>
          Inr (clone (map snd (filter (\<lambda>(i, event). i \<notin> indices)
                                (zip [0..<length (c_events c)] (c_events c))))
                 ((c_keyMap c)(k := None))))"

definition setEvents :: "('e \<Rightarrow> string) \<Rightarrow> 'e collection \<Rightarrow> 'e list \<Rightarrow> 'e collection" where
  "setEvents key c events = clone events (buildKeyMap key events)"

text \<open>\<open>takeLast(amount)\<close> for a count \<open>amount \<ge> 0\<close>.\<close>

definition takeLast :: "('e \<Rightarrow> string) \<Rightarrow> 'e collection \<Rightarrow> nat \<Rightarrow> 'e collection" where
  "takeLast key c amount =
     (let events = drop (length (c_events c) - amount) (c_events c)
      in clone events (buildKeyMap key events))"

text \<open>
  \<open>slice(begin, end)\<close> of a list: a negative index counts from the end, and both are
  clamped to the bounds.
\<close>

definition slice_index :: "nat \<Rightarrow> int \<Rightarrow> nat" where
  "slice_index n i = (if i < 0 then nat (max 0 (int n + i)) else min n (nat i))"

definition slice :: "('e \<Rightarrow> string) \<Rightarrow> 'e collection \<Rightarrow> int \<Rightarrow> int \<Rightarrow> 'e collection" where
  "slice key c begin end =
     (let n = length (c_events c); b = slice_index n begin; e = slice_index n end
      in setEvents key c (take (e - b) (drop b (c_events c))))"

definition filter_collection :: "('e \<Rightarrow> string) \<Rightarrow> 'e collection \<Rightarrow> ('e \<Rightarrow> bool) \<Rightarrow> 'e collection" where
  "filter_collection key c predicate = setEvents key c (filter predicate (c_events c))"

text \<open>
  The invariant of the key index: the set stored for a key is the set of positions of the
  events with that key, and a key without events is not in the map.
\<close>

definition positions_of :: "('e \<Rightarrow> string) \<Rightarrow> 'e list \<Rightarrow> string \<Rightarrow> nat set" where
  "positions_of key events k = {i. i < length events \<and> key (events ! i) = k}"

definition key_index_ok :: "('e \<Rightarrow> string) \<Rightarrow> 'e collection \<Rightarrow> bool" where
  "key_index_ok key c =
     (\<forall>k. case c_keyMap c k of
             Some s \<Rightarrow> s = positions_of key (c_events c) k
           | None \<Rightarrow> positions_of key (c_events c) k = {})"

subsection \<open>quantile\<close>

datatype InterpolationType = interp_linear | interp_lower | interp_higher | interp_nearest | interp_midpoint

text \<open>The numbers of the enumeration, and the truth value of a number in a condition.\<close>

fun InterpolationType_value :: "InterpolationType \<Rightarrow> nat" where
  "InterpolationType_value interp_linear = 1"
| "InterpolationType_value interp_lower = 2"
| "InterpolationType_value interp_higher = 3"
| "InterpolationType_value interp_nearest = 4"
| "InterpolationType_value interp_midpoint = 5"

definition truthy :: "nat \<Rightarrow> bool" where
  "truthy n = (n \<noteq> 0)"

text \<open>
  The loop \<open>for (let i = subsets; i < 1; i += subsets)\<close> over the values of the column
  in sorted order; \<open>quantile_body\<close> is its body, which pushes at most one result. The conditions test the members of \<open>InterpolationType\<close> themselves,
  as the source does; \<open>interp\<close> is not read. The step \<open>subsets\<close> is positive
  whenever the loop is entered, and the guard \<open>0 < subsets\<close> makes the recursion total.
  The loop variable is added up exactly here. The source adds doubles: the step
  \<open>1 / n\<close> and each sum are rounded, and for some \<open>n\<close> (10 is one) the rounded sum
  of \<open>n\<close> steps is still below 1, so that the source runs the body once more than this
  loop does. The two agree when the sums are exact, as they are for \<open>n = 2\<close>.
\<close>

definition quantile_body :: "real list \<Rightarrow> InterpolationType \<Rightarrow> real \<Rightarrow> real list" where
  "quantile_body svals interp i =
     (let index = \<lfloor>(of_nat (length svals) - 1) * i\<rfloor>
      in if index < int (length svals) - 1 then
           (let fraction = (of_nat (length svals) - 1) * i - of_int index;
                v0 = svals ! nat index;
                v1 = svals ! nat (index + 1);
                v = (if truthy (InterpolationType_value interp_lower) \<or> fraction = 0 then v0
                     else if truthy (InterpolationType_value interp_linear) then v0 + (v1 - v0) * fraction
                     else if truthy (InterpolationType_value interp_higher) then v1
                     else if truthy (InterpolationType_value interp_nearest) then (if fraction < 0.5 then v0 else v1)
                     else (v0 + v1) / 2)
            in [v])
         else [])"

function quantile_loop :: "real list \<Rightarrow> InterpolationType \<Rightarrow> real \<Rightarrow> real \<Rightarrow> real list" where
  "quantile_loop svals interp subsets i =
     (if 0 < subsets \<and> i < 1
      then quantile_body svals interp i @ quantile_loop svals interp subsets (i + subsets)
      else [])"
  by pat_completeness auto
termination
proof (relation "measure (\<lambda>(svals, interp, subsets, i). nat \<lceil>(1 - i) / subsets\<rceil>)")
  show "wf (measure (\<lambda>(svals, interp, subsets, i). nat \<lceil>(1 - i) / subsets\<rceil>))"
    by simp
next
  fix svals :: "real list" and interp :: InterpolationType and subsets i :: real
  assume h: "0 < subsets \<and> i < 1"
  have e: "(1 - (i + subsets)) / subsets = (1 - i) / subsets - 1"
    using h by (simp add: field_simps)
  have p: "0 < \<lceil>(1 - i) / subsets\<rceil>"
    using h by simp
  have "\<lceil>(1 - (i + subsets)) / subsets\<rceil> = \<lceil>(1 - i) / subsets\<rceil> - 1"
    unfolding e by simp
  then have "nat \<lceil>(1 - (i + subsets)) / subsets\<rceil> < nat \<lceil>(1 - i) / subsets\<rceil>"
    using p by simp
  then show "((svals, interp, subsets, i + subsets), (svals, interp, subsets, i))
      \<in> measure (\<lambda>(svals, interp, subsets, i). nat \<lceil>(1 - i) / subsets\<rceil>)"
    by simp
qed

declare quantile_loop.simps [simp del]

text \<open>
  \<open>quantile(n, column, interp)\<close> on a collection, \<open>column\<close> giving the number in the
  column of an event. The collection is sorted by the column first (a stable sort), then
  \<open>n\<close> is checked against the size. For \<open>n = 0\<close> the step is infinite and the loop
  body never runs.
\<close>

definition quantile :: "('e \<Rightarrow> real) \<Rightarrow> 'e collection \<Rightarrow> nat \<Rightarrow> InterpolationType \<Rightarrow> error + real list" where
  "quantile column c n interp =
     (let svals = sort_key column (c_events c)
      in if n > length (c_events c)
         then Inl (Error ''Subset n is greater than the Collection length'')
         else if n = 0 then Inr []
         else Inr (quantile_loop (map column svals) interp (1 / of_nat n) (1 / of_nat n)))"

text \<open>
  The interpolation between two neighbours \<open>v0\<close> and \<open>v1\<close> that the documentation of
  \<open>quantile\<close> describes for each policy.
\<close>

fun interpolate :: "InterpolationType \<Rightarrow> real \<Rightarrow> real \<Rightarrow> real \<Rightarrow> real" where
  "interpolate interp_linear v0 v1 fraction = v0 + (v1 - v0) * fraction"
| "interpolate interp_lower v0 v1 fraction = v0"
| "interpolate interp_higher v0 v1 fraction = v1"
| "interpolate interp_nearest v0 v1 fraction = (if fraction < 0.5 then v0 else v1)"
| "interpolate interp_midpoint v0 v1 fraction = (v0 + v1) / 2"

section \<open>Events and the Align processor\<close>

text \<open>
  An event has a key and a map of fields. Of a key the code below uses only whether it is
  a \<open>Time\<close> and what \<open>timestamp()\<close> gives: a key that is not a \<open>Time\<close> (a
  \<open>TimeRange\<close> or an \<open>Index\<close>) is modelled by the instant of its timestamp. The
  fields are a list of names with their values, a name occurring once.
\<close>

datatype key = Time int | NotTime int

record event =
  e_key :: key
  e_data :: "(string \<times> real jsval) list"

fun key_timestamp :: "key \<Rightarrow> int" where
  "key_timestamp (Time t) = t"
| "key_timestamp (NotTime t) = t"

definition timestamp :: "event \<Rightarrow> int" where
  "timestamp e = key_timestamp (e_key e)"

definition is_Time :: "key \<Rightarrow> bool" where
  "is_Time k = (case k of Time t \<Rightarrow> True | NotTime t \<Rightarrow> False)"

text \<open>\<open>event.get(field)\<close>: a field that is not there is \<open>undefined\<close>.\<close>

definition event_get :: "event \<Rightarrow> string \<Rightarrow> real jsval" where
  "event_get e field = (case map_of (e_data e) field of Some v \<Rightarrow> v | None \<Rightarrow> Undefined)"

text \<open>\<open>d.set(field, value)\<close> on the map of fields.\<close>

fun data_set :: "string \<Rightarrow> real jsval \<Rightarrow> (string \<times> real jsval) list \<Rightarrow> (string \<times> real jsval) list" where
  "data_set field v [] = [(field, v)]"
| "data_set field v ((name, w) # d) =
     (if name = field then (name, v) # d else (name, w) # data_set field v d)"

subsection \<open>Period.within\<close>

text \<open>
  The loop of \<open>within\<close> calls \<open>next\<close> until the scan reaches the end of the range.
  It ends for a frequency of a positive whole number of milliseconds; for other
  frequencies \<open>next\<close> may not advance, and the loop then runs forever (\<open>None\<close>). An
  invalid date compares false with everything and ends the loop.
\<close>

partial_function (option) within_loop :: "period \<Rightarrow> int \<Rightarrow> int option \<Rightarrow> int list \<Rightarrow> int list option" where
  "within_loop p t2 scan result =
     (case scan of
        None \<Rightarrow> Some result
      | Some s \<Rightarrow> if s < t2 then within_loop p t2 (period_next p s) (result @ [s]) else Some result)"

declare within_loop.simps [code]

definition period_within :: "period \<Rightarrow> int \<Rightarrow> int \<Rightarrow> int list option" where
  "period_within p t1 t2 = within_loop p t2 (if isAligned p t1 then Some t1 else period_next p t1) []"

subsection \<open>Align\<close>

datatype AlignmentMethod = Hold | Linear

record align =
  a_fieldSpec :: "string list"
  a_period :: period
  a_method :: AlignmentMethod
  a_limit :: "nat option"
  a_previous :: "event option"

text \<open>\<open>new Align(options)\<close>: the method defaults to \<open>Hold\<close>, the limit to \<open>null\<close>.\<close>

definition new_Align :: "string list \<Rightarrow> period \<Rightarrow> AlignmentMethod option \<Rightarrow> nat option \<Rightarrow> align" where
  "new_Align fieldSpec p method limit =
     \<lparr>a_fieldSpec = fieldSpec, a_period = p,
      a_method = (case method of Some m \<Rightarrow> m | None \<Rightarrow> Hold),
      a_limit = limit, a_previous = None\<rparr>"

definition align_isAligned :: "align \<Rightarrow> event \<Rightarrow> bool" where
  "align_isAligned a e = isAligned (a_period a) (timestamp e)"

text \<open>\<open>getBoundaries\<close>, for the previous event \<open>prev\<close>.\<close>

definition getBoundaries :: "align \<Rightarrow> event \<Rightarrow> event \<Rightarrow> int list option" where
  "getBoundaries a prev e =
     (if timestamp prev = timestamp e then Some []
      else period_within (a_period a) (timestamp prev) (timestamp e))"

definition interpolateHold :: "align \<Rightarrow> event \<Rightarrow> int \<Rightarrow> bool \<Rightarrow> event" where
  "interpolateHold a prev boundaryTime setNone =
     \<lparr>e_key = Time boundaryTime,
      e_data = foldl (\<lambda>d fieldPath. data_set fieldPath (if setNone then Null else event_get prev fieldPath) d)
                 [] (a_fieldSpec a)\<rparr>"

text \<open>\<open>_.isNumber\<close> holds of \<open>NaN\<close> too.\<close>

definition isNumber :: "real jsval \<Rightarrow> bool" where
  "isNumber v = (case v of Num x \<Rightarrow> True | NaN \<Rightarrow> True | _ \<Rightarrow> False)"

definition interpolateLinear :: "align \<Rightarrow> event \<Rightarrow> int \<Rightarrow> event \<Rightarrow> event" where
  "interpolateLinear a prev boundaryTime e =
     (let previousTime = timestamp prev;
          currentTime = timestamp e;
          f = js_divide (Num (of_int (boundaryTime - previousTime)))
                        (Num (of_int (currentTime - previousTime)))
      in \<lparr>e_key = Time boundaryTime,
          e_data = foldl (\<lambda>d fieldPath.
                      (let previousVal = event_get prev fieldPath;
                           currentVal = event_get e fieldPath;
                           interpolatedVal =
                             (if \<not> isNumber previousVal \<or> \<not> isNumber currentVal then Null
                              else js_plus previousVal (js_times f (js_minus currentVal previousVal)))
                       in data_set fieldPath interpolatedVal d))
                    [] (a_fieldSpec a)\<rparr>)"

text \<open>
  \<open>addEvent\<close> returns the list of events it emits and the processor with its new
  \<open>_previous\<close>. On the first event the source collects the event in \<open>eventList\<close>
  when it is aligned, and then returns a new empty list.
\<close>

definition align_addEvent :: "align \<Rightarrow> event \<Rightarrow> (error + event list \<times> align) option" where
  "align_addEvent a e =
     (if \<not> is_Time (e_key e) then Some (Inl (Error ''The key of aligned events must be a Time''))
      else case a_previous a of
        None \<Rightarrow>
          (let eventList = (if align_isAligned a e then [e] else [])
           in Some (Inr ([], a\<lparr>a_previous := Some e\<rparr>)))
      | Some prev \<Rightarrow>
          (case getBoundaries a prev e of
             None \<Rightarrow> None
           | Some boundaries \<Rightarrow>
               (let eventList = map (\<lambda>boundaryTime.
                      if (case a_limit a of Some l \<Rightarrow> l \<noteq> 0 \<and> length boundaries > l | None \<Rightarrow> False)
                      then interpolateHold a prev boundaryTime True
                      else (case a_method a of
                              Linear \<Rightarrow> interpolateLinear a prev boundaryTime e
                            | Hold \<Rightarrow> interpolateHold a prev boundaryTime False))
                    boundaries
                in Some (Inr (eventList, a\<lparr>a_previous := Some e\<rparr>)))))"

section \<open>Index strings\<close>

subsection \<open>Regular expressions\<close>

text \<open>
  The regular expressions of the source use character classes, sequence and repetition.
  They are values of the datatype below (\<open>Zero\<close>, \<open>One\<close> and \<open>Alt\<close> arise when
  a derivative is taken), matched against the whole string: the source's expression for
  index strings is anchored at both ends.
\<close>

datatype rexp = Zero | One | Class string | Alt rexp rexp | Seq rexp rexp | Star rexp

definition Plus :: "rexp \<Rightarrow> rexp" where
  "Plus r = Seq r (Star r)"

fun nullable :: "rexp \<Rightarrow> bool" where
  "nullable Zero = False"
| "nullable One = True"
| "nullable (Class cs) = False"
| "nullable (Alt r s) = (nullable r \<or> nullable s)"
| "nullable (Seq r s) = (nullable r \<and> nullable s)"
| "nullable (Star r) = True"

fun deriv :: "char \<Rightarrow> rexp \<Rightarrow> rexp" where
  "deriv c Zero = Zero"
| "deriv c One = Zero"
| "deriv c (Class cs) = (if c \<in> set cs then One else Zero)"
| "deriv c (Alt r s) = Alt (deriv c r) (deriv c s)"
| "deriv c (Seq r s) =
     (if nullable r then Alt (Seq (deriv c r) s) (deriv c s) else Seq (deriv c r) s)"
| "deriv c (Star r) = Seq (deriv c r) (Star r)"

fun matches :: "rexp \<Rightarrow> string \<Rightarrow> bool" where
  "matches r [] = nullable r"
| "matches r (c # cs) = matches (deriv c r) cs"

text \<open>The set of strings of an expression, for reasoning about \<open>matches\<close>.\<close>

inductive_set star :: "string set \<Rightarrow> string set" for A :: "string set" where
  star_empty: "[] \<in> star A"
| star_step: "u \<in> A \<Longrightarrow> v \<in> star A \<Longrightarrow> u @ v \<in> star A"

fun lang :: "rexp \<Rightarrow> string set" where
  "lang Zero = {}"
| "lang One = {[]}"
| "lang (Class cs) = {[c] | c. c \<in> set cs}"
| "lang (Alt r s) = lang r \<union> lang s"
| "lang (Seq r s) = {u @ v | u v. u \<in> lang r \<and> v \<in> lang s}"
| "lang (Star r) = star (lang r)"

subsection \<open>The expression for period index strings\<close>

text \<open>
  \<open>/^((([0-9]+)([smhdlun]))@)*(([0-9]+)([smhdlun]))(\\+([0-9]+))*-([0-9]+)$/\<close>, the
  constant \<open>indexStringRegex\<close> of the source.
\<close>

definition digits_rexp :: rexp where
  "digits_rexp = Plus (Class ''0123456789'')"

definition indexStringRegex :: rexp where
  "indexStringRegex =
     Seq (Star (Seq (Seq digits_rexp (Class ''smhdlun'')) (Class ''@'')))
       (Seq (Seq digits_rexp (Class ''smhdlun''))
          (Seq (Star (Seq (Class ''+'') digits_rexp))
             (Seq (Class ''-'') digits_rexp)))"

definition isIndexString :: "string \<Rightarrow> bool" where
  "isIndexString indexString = matches indexStringRegex indexString"

text \<open>
  The grammar of the specification:
  \<open>^(([0-9]+)([nulsmhdw])@)*(([0-9]+)([nulsmhdw]))(\\+([0-9]+))*-([0-9]+)$\<close>.
\<close>

definition spec_indexStringRegex :: rexp where
  "spec_indexStringRegex =
     Seq (Star (Seq (Seq digits_rexp (Class ''nulsmhdw'')) (Class ''@'')))
       (Seq (Seq digits_rexp (Class ''nulsmhdw''))
          (Seq (Star (Seq (Class ''+'') digits_rexp))
             (Seq (Class ''-'') digits_rexp)))"

subsection \<open>Splitting and the groups of a match\<close>

text \<open>\<open>s.split(c)\<close> for a separator of one character.\<close>

fun split_on :: "char \<Rightarrow> string \<Rightarrow> string list" where
  "split_on c [] = [[]]"
| "split_on c (x # xs) =
     (if x = c then [] # split_on c xs
      else (case split_on c xs of p # ps \<Rightarrow> (x # p) # ps | [] \<Rightarrow> [[x]]))"

text \<open>\<open>s.split("::")\<close>: the separator is found from the left.\<close>

fun split_colons :: "string \<Rightarrow> string list" where
  "split_colons [] = [[]]"
| "split_colons [x] = [[x]]"
| "split_colons (x # y # xs) =
     (if x = CHR '':'' \<and> y = CHR '':'' then [] # split_colons xs
      else (case split_colons (y # xs) of p # ps \<Rightarrow> (x # p) # ps | [] \<Rightarrow> [[x]]))"

text \<open>
  The groups that \<open>indexStringRegex.exec\<close> returns. The pieces of an index string are
  set apart by \<open>@\<close>, \<open>+\<close> and \<open>-\<close>, which occur nowhere else in it, so the match is
  found by splitting: the pieces before the last \<open>@\<close> are the iterations of group 1
  (a repeated group keeps its last iteration), the last piece holds group 5 (the
  frequency), the iterations of group 8 (group 9 is the digits of the last one) and
  group 10 (the index). The result is (group 1, group 5, group 9, group 10), or
  \<open>None\<close> for \<open>null\<close>.
\<close>

definition all_digits :: "string \<Rightarrow> bool" where
  "all_digits s = (s \<noteq> [] \<and> list_all is_digit s)"

definition is_unit_string :: "string \<Rightarrow> bool" where
  "is_unit_string s =
     (let ds = takeWhile is_digit s; r = dropWhile is_digit s
      in ds \<noteq> [] \<and> length r = 1 \<and> hd r \<in> set ''smhdlun'')"

definition indexStringRegex_exec :: "string \<Rightarrow> (string option \<times> string \<times> string option \<times> string) option" where
  "indexStringRegex_exec s =
     (let segs = split_on CHR ''@'' s;
          iters = butlast segs;
          final = last segs;
          ds = takeWhile is_digit final;
          r = dropWhile is_digit final
      in if \<not> list_all is_unit_string iters \<or> ds = [] \<or> r = [] \<or> hd r \<notin> set ''smhdlun''
         then None
         else
           (case split_on CHR ''-'' (tl r) of
              [pluses, i] \<Rightarrow>
                (let ps = split_on CHR ''+'' pluses
                 in if hd ps = [] \<and> list_all all_digits (tl ps) \<and> all_digits i
                    then Some (if iters = [] then None else Some (last iters @ ''@''),
                               ds @ [hd r],
                               if tl ps = [] then None else Some (last ps),
                               i)
                    else None)
            | _ \<Rightarrow> None))"

subsection \<open>Decoding\<close>

text \<open>
  \<open>decodeIndexString\<close>. When the expression does not match, \<open>parts\<close> is \<open>null\<close>
  and taking it apart throws. The decoded period and duration are built by the
  constructors above from the strings of the groups. \<open>Inr None\<close> stands for a result
  with an undefined duration or a \<open>NaN\<close> index, which the groups of a match never
  give. An offset beyond the range of \<open>Date\<close> makes an invalid \<open>Time\<close>, and the
  offset of the decoded period is then \<open>NaN\<close>; the model, which has no such period,
  takes the epoch as for a missing offset (of the decoded period only the frequency is
  used below).
\<close>

record decoded =
  decodedPeriod :: period
  decodedDuration :: duration
  decodedIndex :: int

definition decodeIndexString :: "string \<Rightarrow> error + decoded option" where
  "decodeIndexString indexString =
     (case indexStringRegex_exec indexString of
        None \<Rightarrow> Inl (TypeError ''object null is not iterable'')
      | Some (d, frequency, offset, i) \<Rightarrow>
          Inr (case duration_of_string frequency of
                 None \<Rightarrow> None
               | Some f \<Rightarrow>
                   (let p = new_Period f (case offset of
                                            Some off \<Rightarrow> Option.bind (parseInt off) (\<lambda>n. new_Time (of_int n))
                                          | None \<Rightarrow> None)
                    in case (case d of Some ds \<Rightarrow> duration_of_string ds | None \<Rightarrow> Some (p_frequency p)) of
                         None \<Rightarrow> None
                       | Some dd \<Rightarrow>
                           (case parseInt i of
                              None \<Rightarrow> None
                            | Some n \<Rightarrow> Some \<lparr>decodedPeriod = p, decodedDuration = dd, decodedIndex = n\<rparr>))))"

text \<open>
  Modelled from the spec: the \<open>TimeRange\<close> class is not in the modelled code; the
  specification describes it as the closed interval from \<open>begin\<close> to \<open>end\<close> in epoch
  milliseconds.
\<close>

record timerange =
  tr_begin :: int
  tr_end :: int

definition timerange_contains :: "timerange \<Rightarrow> int \<Rightarrow> bool" where
  "timerange_contains r t = (tr_begin r \<le> t \<and> t \<le> tr_end r)"

text \<open>
  The calendar forms of an index string are decoded by the moment-timezone library, which
  is taken as a parameter: \<open>cal\<close> maps a day, a month or a year (in the time zone of the
  call) to the begin and the end of that stretch, or to \<open>None\<close> when the date is not
  valid. A year that \<open>parseInt\<close> cannot read is \<open>NaN\<close>.
\<close>

datatype calendar_index = Day int int int | Month int int | Year "int option"

text \<open>
  \<open>timeRangeFromIndexString\<close>; \<open>None\<close> is \<open>undefined\<close>, the result when
  either end is missing or not valid. For a period index string the two ends are given to
  \<open>moment\<close> as numbers, which clips them like a \<open>Date\<close> and is not valid outside
  the range of \<open>Date\<close>.
\<close>

definition timeRangeFromIndexString :: "(calendar_index \<Rightarrow> (int \<times> int) option) \<Rightarrow> string \<Rightarrow> error + timerange option" where
  "timeRangeFromIndexString cal indexString =
     (let parts = split_on CHR ''-'' indexString;
          of_cal = (\<lambda>r. case r of Some (b, e) \<Rightarrow> Some \<lparr>tr_begin = b, tr_end = e\<rparr> | None \<Rightarrow> None)
      in if length parts = 3 then
           (case (parseInt (parts ! 0), parseInt (parts ! 1), parseInt (parts ! 2)) of
              (Some parsedYear, Some parsedMonth, Some parsedDay) \<Rightarrow>
                 Inr (of_cal (cal (Day parsedYear (parsedMonth - 1) parsedDay)))
            | _ \<Rightarrow> Inr None)
         else if length parts = 2 then
           (if isIndexString indexString then
              (case decodeIndexString indexString of
                 Inl err \<Rightarrow> Inl err
               | Inr None \<Rightarrow> Inr None
               | Inr (Some dec) \<Rightarrow>
                   (let beginTimestamp = of_int (decodedIndex dec) * freq_ms (decodedPeriod dec);
                        endTimestamp = beginTimestamp + dur_ms (decodedDuration dec)
                    in case (new_Date beginTimestamp, new_Date endTimestamp) of
                         (Some b, Some e) \<Rightarrow> Inr (Some \<lparr>tr_begin = b, tr_end = e\<rparr>)
                       | _ \<Rightarrow> Inr None))
            else
              (case (parseInt (parts ! 0), parseInt (parts ! 1)) of
                 (Some parsedYear, Some parsedMonth) \<Rightarrow>
                    Inr (of_cal (cal (Month parsedYear (parsedMonth - 1))))
               | _ \<Rightarrow> Inr None))
         else if length parts = 1 then Inr (of_cal (cal (Year (parseInt (parts ! 0)))))
         else Inr None)"

subsection \<open>Durations written in shorthand\<close>

text \<open>
  A shorthand string is a run of digits followed by one unit letter. The theorems on index
  strings are about durations built from such a string whose unit is a whole number of
  milliseconds long and known to \<open>indexStringRegex\<close>.
\<close>

definition unit_ms :: "char \<Rightarrow> int" where
  "unit_ms u =
     (if u = CHR ''l'' then 1
      else if u = CHR ''s'' then 1000
      else if u = CHR ''m'' then 1000 * 60
      else if u = CHR ''h'' then 1000 * 60 * 60
      else 1000 * 60 * 60 * 24)"

definition is_ms_shorthand :: "string \<Rightarrow> bool" where
  "is_ms_shorthand s =
     (let ds = takeWhile is_digit s; r = dropWhile is_digit s
      in ds \<noteq> [] \<and> length r = 1 \<and> hd r \<in> set ''lsmhd'')"

definition shorthand_duration :: "duration \<Rightarrow> bool" where
  "shorthand_duration d =
     (case dur_string d of
        Some s \<Rightarrow> is_ms_shorthand s \<and> duration_of_string s = Some d
      | None \<Rightarrow> False)"

text \<open>The strings that \<open>indexStringRegex\<close> is built from, as sets and as a builder.\<close>

definition unit_strings :: "string set" where
  "unit_strings = {ds @ [u] | ds u. all_digits ds \<and> u \<in> set ''smhdlun''}"

definition build_index_string :: "string list \<Rightarrow> string \<Rightarrow> string list \<Rightarrow> string \<Rightarrow> string" where
  "build_index_string iters freq offs idx =
     concat (map (\<lambda>x. x @ ''@'') iters) @ freq @ concat (map (\<lambda>x. CHR ''+'' # x) offs) @ ''-'' @ idx"


section \<open>WindowedCollection\<close>

text \<open>
  \<open>Trigger\<close> of the types of the library. The options of a \<open>WindowedCollection\<close>
  hold the window and, optionally, the trigger.
\<close>

datatype Trigger = perEvent | onDiscardedWindow

text \<open>
  The collections of a \<open>WindowedCollection\<close> are an \<open>Immutable.Map\<close> from a key to
  a \<open>SortedCollection\<close>. The map is modelled by the list of its entries in the order
  in which the keys were first set, which is the order in which \<open>forEach\<close> visits a map
  of at most eight entries (a larger map is visited in the order of the hashes of its
  keys). Modelled from the spec: \<open>SortedCollection\<close> is not in the modelled code;
  the specification requires of it that \<open>addEvent\<close> appends the event, without
  deduplication. A \<open>SortedCollection\<close> is modelled by the list of its events.
\<close>

definition map_set :: "string \<Rightarrow> 'v \<Rightarrow> (string \<times> 'v) list \<Rightarrow> (string \<times> 'v) list" where
  "map_set k v m =
     (if k \<in> fst ` set m then map (\<lambda>(k', v'). if k' = k then (k', v) else (k', v')) m
      else m @ [(k, v)])"

record windowed_collection =
  wc_window :: window
  wc_trigger :: "Trigger option"
  wc_group :: "(event \<Rightarrow> string option) option"
  wc_collections :: "(string \<times> event list) list"

text \<open>
  \<open>getEventGroups\<close>: the index strings of the windows of the timestamp of the event,
  each behind the group key when there is one. The grouping function of the model gives
  the string of the group key, or \<open>None\<close> for a key that is falsy. \<open>None\<close> as the
  result stands for a \<open>getIndexSet\<close> that does not return.
\<close>

definition getEventGroups ::
    "(real \<Rightarrow> real) \<Rightarrow> (real \<Rightarrow> string) \<Rightarrow> windowed_collection \<Rightarrow> event \<Rightarrow> string list option" where
  "getEventGroups fl str wc e =
     (let groupKey = (case wc_group wc of Some fn \<Rightarrow> fn e | None \<Rightarrow> None)
      in map_option
           (map (\<lambda>windowKey. case groupKey of Some g \<Rightarrow> g @ ''::'' @ windowKey | None \<Rightarrow> windowKey))
           (getIndexSet fl str (wc_window wc) (timestamp e) (timestamp e)))"

text \<open>
  The first loop of \<open>addEvent\<close>: the event is added to the collection of each key, a
  new one when the map does not have the key, and with the trigger \<open>perEvent\<close> the
  collection is pushed onto the list of emissions.
\<close>

definition add_to_key ::
    "bool \<Rightarrow> event \<Rightarrow> string
     \<Rightarrow> (string \<times> event list) list \<times> (string \<times> event list) list
     \<Rightarrow> (string \<times> event list) list \<times> (string \<times> event list) list" where
  "add_to_key emitEveryEvent e k = (\<lambda>(collections, toBeEmitted).
     (let targetCollection = (case map_of collections k of Some c \<Rightarrow> c | None \<Rightarrow> []);
          collections' = map_set k (targetCollection @ [e]) collections
      in (collections',
          if emitEveryEvent then toBeEmitted @ [(k, targetCollection @ [e])] else toBeEmitted)))"

text \<open>
  The window key of a collection key: the second part when \<open>::\<close> splits the key in
  more than one part, the key itself otherwise.
\<close>

definition window_key :: "string \<Rightarrow> string" where
  "window_key collectionKey =
     (if length (split_colons collectionKey) > 1 then split_colons collectionKey ! 1
      else collectionKey)"

text \<open>
  The second loop of \<open>addEvent\<close>: a collection is kept when the timestamp of the event
  is before the end of the time range of its window key, and discarded otherwise. When
  \<open>timeRangeFromIndexString\<close> throws, or returns \<open>undefined\<close>, whose \<open>end\<close>
  cannot be read, the call throws. The result is the pair of \<open>keep\<close> and
  \<open>discard\<close>.
\<close>

fun discard_past ::
    "(calendar_index \<Rightarrow> (int \<times> int) option) \<Rightarrow> int \<Rightarrow> (string \<times> event list) list
     \<Rightarrow> error + (string \<times> event list) list \<times> (string \<times> event list) list" where
  "discard_past cal t [] = Inr ([], [])"
| "discard_past cal t ((collectionKey, collection) # rest) =
     (case timeRangeFromIndexString cal (window_key collectionKey) of
        Inl err \<Rightarrow> Inl err
      | Inr None \<Rightarrow> Inl (TypeError ''Cannot read properties of undefined'')
      | Inr (Some r) \<Rightarrow>
          (case discard_past cal t rest of
             Inl err \<Rightarrow> Inl err
           | Inr (keep, discard) \<Rightarrow>
               if t < tr_end r then Inr ((collectionKey, collection) # keep, discard)
               else Inr (keep, (collectionKey, collection) # discard)))"

text \<open>
  \<open>addEvent\<close>: the list of emissions and the collection after the call.
\<close>

definition wc_addEvent ::
    "(real \<Rightarrow> real) \<Rightarrow> (real \<Rightarrow> string) \<Rightarrow> (calendar_index \<Rightarrow> (int \<times> int) option)
     \<Rightarrow> windowed_collection \<Rightarrow> event
     \<Rightarrow> (error + (string \<times> event list) list \<times> windowed_collection) option" where
  "wc_addEvent fl str cal wc e =
     (let emitOnDiscard = (wc_trigger wc = Some onDiscardedWindow);
          emitEveryEvent = (wc_trigger wc = Some perEvent)
      in case getEventGroups fl str wc e of
           None \<Rightarrow> None
         | Some keys \<Rightarrow>
             (let (collections, toBeEmitted) =
                    fold (add_to_key emitEveryEvent e) keys (wc_collections wc, [])
              in case discard_past cal (timestamp e) collections of
                   Inl err \<Rightarrow> Some (Inl err)
                 | Inr (keep, discard) \<Rightarrow>
                     Some (Inr (if emitOnDiscard then toBeEmitted @ discard else toBeEmitted,
                                wc\<lparr>wc_collections := keep\<rparr>))))"

text \<open>
  The events of a list given to \<open>addEvent\<close> one after the other, from a collection
  \<open>wc\<close>: the emissions of all the calls, in order, and the collection after the last.
\<close>

fun feed ::
    "(real \<Rightarrow> real) \<Rightarrow> (real \<Rightarrow> string) \<Rightarrow> (calendar_index \<Rightarrow> (int \<times> int) option)
     \<Rightarrow> windowed_collection \<Rightarrow> event list
     \<Rightarrow> (error + (string \<times> event list) list \<times> windowed_collection) option" where
  "feed fl str cal wc [] = Some (Inr ([], wc))"
| "feed fl str cal wc (e # es) =
     (case wc_addEvent fl str cal wc e of
        None \<Rightarrow> None
      | Some (Inl err) \<Rightarrow> Some (Inl err)
      | Some (Inr (emitted, wc')) \<Rightarrow>
          (case feed fl str cal wc' es of
             None \<Rightarrow> None
           | Some (Inl err) \<Rightarrow> Some (Inl err)
           | Some (Inr (emitted', wc'')) \<Rightarrow> Some (Inr (emitted @ emitted', wc''))))"
section \<open>Properties of Period\<close>

lemma new_Date_of_int: "new_Date (of_int i) = (if \<bar>i\<bar> \<le> MAX_DATE then Some i else None)"
proof -
  have "(\<bar>of_int i :: real\<bar> \<le> of_int MAX_DATE) = (\<bar>i\<bar> \<le> MAX_DATE)"
    by (metis of_int_abs of_int_le_iff)
  then show ?thesis by (simp add: new_Date_def)
qed

lemma new_Time_of_int: "new_Time (of_int i) = (if \<bar>i\<bar> \<le> MAX_DATE then Some i else None)"
  by (simp add: new_Time_def new_Date_of_int)

lemma new_Date_valid [simp]: "\<bar>i\<bar> \<le> MAX_DATE \<Longrightarrow> new_Date (of_int i) = Some i"
  by (simp add: new_Date_of_int)

lemma new_Time_valid [simp]: "\<bar>i\<bar> \<le> MAX_DATE \<Longrightarrow> new_Time (of_int i) = Some i"
  by (simp add: new_Time_of_int)

text \<open>
  With a frequency of a whole number \<open>f > 0\<close> of milliseconds, \<open>next\<close> is integer
  arithmetic: the least \<open>offset + k * f\<close> above \<open>t\<close>.
\<close>

lemma ceiling_of_int_divide: "\<lceil>(of_int a :: real) / of_int b\<rceil> = - ((- a) div b)"
  by (rule ceiling_divide_eq_div)

lemma period_next_int:
  assumes f: "freq_ms p = of_int f" and pos: "0 < f"
  shows "period_next p t =
     new_Time (of_int (let c = (- ((- (t - p_offset p)) div f)) * f + p_offset p
                       in if c = t then c + f else c))"
proof -
  define c where "c = (- ((- (t - p_offset p)) div f)) * f + p_offset p"
  have nz: "freq_ms p \<noteq> 0" using f pos by simp
  have idx: "\<lceil>(of_int t - of_int (p_offset p)) / freq_ms p\<rceil> = - ((- (t - p_offset p)) div f)"
    using ceiling_of_int_divide [of "t - p_offset p" f] by (simp add: f)
  have cand: "of_int (- ((- (t - p_offset p)) div f)) * freq_ms p + of_int (p_offset p)
      = (of_int c :: real)"
    by (simp add: f c_def)
  have step: "of_int c + freq_ms p = (of_int (c + f) :: real)"
    by (simp add: f)
  have "period_next p t = (if (of_int c :: real) = of_int t then new_Time (of_int (c + f))
      else new_Time (of_int c))"
    unfolding period_next_def Let_def idx cand step using nz by simp
  also have "\<dots> = new_Time (of_int (if c = t then c + f else c))"
    by (simp only: of_int_eq_iff if_distrib [of "\<lambda>x. new_Time (of_int x)"])
  finally show ?thesis
    by (simp add: c_def Let_def)
qed

lemma isAligned_int:
  assumes f: "freq_ms p = of_int f" and nz: "f \<noteq> 0"
  shows "isAligned p t \<longleftrightarrow> (t - p_offset p) mod f = 0"
proof -
  define a where "a = t - p_offset p"
  have q: "(of_int t - of_int (p_offset p)) / freq_ms p = (of_int a / of_int f :: real)"
    by (simp add: a_def f)
  have "of_int \<lfloor>(of_int a / of_int f :: real)\<rfloor> = (of_int a / of_int f :: real) \<longleftrightarrow> f dvd a"
  proof
    assume h: "of_int \<lfloor>(of_int a / of_int f :: real)\<rfloor> = (of_int a / of_int f :: real)"
    then have "(of_int (a div f) :: real) * of_int f = of_int a"
      using nz by (simp add: floor_divide_of_int_eq field_simps)
    then have "(a div f) * f = a"
      by (metis of_int_eq_iff of_int_mult)
    then show "f dvd a" by (metis dvd_triv_right)
  next
    assume "f dvd a"
    then obtain k where "a = f * k" ..
    then show "of_int \<lfloor>(of_int a / of_int f :: real)\<rfloor> = (of_int a / of_int f :: real)"
      using nz by simp
  qed
  then show ?thesis
    unfolding isAligned_def Let_def q using nz f
    by (simp add: a_def mod_eq_0_iff_dvd)
qed

lemma ceil_mult_bounds:
  fixes a f :: int
  assumes "0 < f"
  shows "a \<le> (- ((- a) div f)) * f" and "(- ((- a) div f)) * f < a + f"
    and "a mod f = 0 \<Longrightarrow> (- ((- a) div f)) * f = a"
proof -
  have e: "(- a) div f * f + (- a) mod f = - a" by (rule div_mult_mod_eq)
  have b: "0 \<le> (- a) mod f" "(- a) mod f < f" using assms by simp_all
  have k: "(- ((- a) div f)) * f = a + (- a) mod f"
    unfolding mult_minus_left using e by linarith
  show "a \<le> (- ((- a) div f)) * f" using k b by linarith
  show "(- ((- a) div f)) * f < a + f" using k b by linarith
  show "(- ((- a) div f)) * f = a" if "a mod f = 0"
  proof -
    have "f dvd a" using that by (simp add: mod_eq_0_iff_dvd)
    then have "f dvd - a" by simp
    then have "(- a) mod f = 0" by (simp add: mod_eq_0_iff_dvd)
    then show ?thesis using k by simp
  qed
qed

lemma period_next_facts:
  assumes f: "freq_ms p = of_int f" and pos: "0 < f"
  obtains n where "period_next p t = new_Time (of_int n)" and "t < n" and "n \<le> t + f"
    and "(n - p_offset p) mod f = 0" and "isAligned p n"
    and "(t - p_offset p) mod f = 0 \<Longrightarrow> n = t + f"
proof -
  define a where "a = t - p_offset p"
  define c where "c = (- ((- a) div f)) * f + p_offset p"
  define n where "n = (if c = t then c + f else c)"
  have nx: "period_next p t = new_Time (of_int n)"
    using period_next_int [OF f pos, of t] by (simp add: n_def c_def a_def Let_def)
  have lo: "t \<le> c" using ceil_mult_bounds(1) [OF pos, of a] by (simp add: c_def a_def)
  have hi: "c < t + f" using ceil_mult_bounds(2) [OF pos, of a] by (simp add: c_def a_def)
  have gt: "t < n" using lo pos by (simp add: n_def)
  have le: "n \<le> t + f" using hi by (simp add: n_def)
  have cm: "(c - p_offset p) mod f = 0" by (simp add: c_def)
  have nm: "(n - p_offset p) mod f = 0"
  proof (cases "c = t")
    case True
    then have "n - p_offset p = (c - p_offset p) + f" by (simp add: n_def)
    then show ?thesis using cm by (metis mod_add_self2)
  next
    case False
    then show ?thesis using cm by (simp add: n_def)
  qed
  have al: "isAligned p n" using isAligned_int [OF f, of n] pos nm by simp
  have imp: "n = t + f" if "(t - p_offset p) mod f = 0"
  proof -
    have "a mod f = 0" using that by (simp add: a_def)
    then have "c = t" using ceil_mult_bounds(3) [OF pos, of a] by (simp add: c_def a_def)
    then show ?thesis by (simp add: n_def)
  qed
  show thesis using that [OF nx gt le nm al imp] .
qed

text \<open>
  Claim C7, for a frequency that is a whole number of milliseconds and for instants in
  the range where \<open>next\<close> computes exactly and its result is a valid date: \<open>t\<close>
  and the offset are valid, \<open>t\<close> plus one frequency is at most \<open>MAX_DATE\<close>, and
  the distance of \<open>t\<close> from the offset plus one frequency is at most
  \<open>MAX_SAFE_INTEGER\<close>. Then \<open>next(t)\<close> is strictly after \<open>t\<close>, lies on a
  boundary of the period (its distance from the offset is a multiple of the frequency,
  and \<open>isAligned\<close> accepts it), and for an aligned \<open>t\<close> it is \<open>t\<close> plus one
  frequency.
\<close>

theorem period_next_strictly_after:
  assumes f: "freq_ms p = of_int f" and pos: "0 < f"
    and t: "\<bar>t\<bar> \<le> MAX_DATE" and off: "\<bar>p_offset p\<bar> \<le> MAX_DATE"
    and hi: "t + f \<le> MAX_DATE"
    and safe: "\<bar>t - p_offset p\<bar> + f \<le> MAX_SAFE_INTEGER"
  shows "\<exists>n. period_next p t = Some n \<and> t < n \<and> (n - p_offset p) mod f = 0
           \<and> isAligned p n \<and> (isAligned p t \<longrightarrow> n = t + f)"
proof -
  obtain n where n: "period_next p t = new_Time (of_int n)" "t < n" "n \<le> t + f"
      "(n - p_offset p) mod f = 0"
      "isAligned p n" "(t - p_offset p) mod f = 0 \<Longrightarrow> n = t + f"
    using period_next_facts [OF f pos, of t] by metis
  have "\<bar>n\<bar> \<le> MAX_DATE" using n(2,3) t hi by linarith
  then have nx: "period_next p t = Some n" using n(1) by simp
  have "isAligned p t \<Longrightarrow> n = t + f"
    using n(6) isAligned_int [OF f, of t] pos by simp
  then show ?thesis
    by (intro exI [of _ n]) (use n nx in simp)
qed

theorem period_next_strictly_after_witness:
  "freq_ms (new_Period \<lparr>dur_string = Some ''5l'', dur_ms = 5\<rparr> (Some 3)) = of_int 5 \<and> (0::int) < 5
   \<and> \<bar>8::int\<bar> \<le> MAX_DATE
   \<and> \<bar>p_offset (new_Period \<lparr>dur_string = Some ''5l'', dur_ms = 5\<rparr> (Some 3))\<bar> \<le> MAX_DATE
   \<and> (8::int) + 5 \<le> MAX_DATE
   \<and> \<bar>8 - p_offset (new_Period \<lparr>dur_string = Some ''5l'', dur_ms = 5\<rparr> (Some 3))\<bar> + 5 \<le> MAX_SAFE_INTEGER
   \<and> isAligned (new_Period \<lparr>dur_string = Some ''5l'', dur_ms = 5\<rparr> (Some 3)) 8
   \<and> period_next (new_Period \<lparr>dur_string = Some ''5l'', dur_ms = 5\<rparr> (Some 3)) 8 = Some 13
   \<and> isAligned (new_Period \<lparr>dur_string = Some ''5l'', dur_ms = 5\<rparr> (Some 3)) 13
   \<and> period_next (new_Period \<lparr>dur_string = Some ''5l'', dur_ms = 5\<rparr> (Some 3)) 9 = Some 13"
  using period_next_strictly_after [of "new_Period \<lparr>dur_string = Some ''5l'', dur_ms = 5\<rparr> (Some 3)" 5 8]
  by (simp add: period_next_def new_Period_def freq_ms_def isAligned_def new_Time_def new_Date_def
      MAX_DATE_def MAX_SAFE_INTEGER_def)

text \<open>
  The claim as stated fails for a frequency below one millisecond: the period built from
  the duration string \<open>1u\<close> (a microsecond) has a positive frequency, and its
  \<open>next\<close> of the epoch is the epoch itself, since the candidate \<open>0.001\<close> is
  clipped to a whole millisecond.
\<close>

theorem period_next_submillisecond_counterexample:
  "duration_of_string ''1u'' = Some \<lparr>dur_string = Some ''1u'', dur_ms = 1 / 1000\<rparr>
   \<and> 0 < freq_ms (new_Period \<lparr>dur_string = Some ''1u'', dur_ms = 1 / 1000\<rparr> None)
   \<and> period_next (new_Period \<lparr>dur_string = Some ''1u'', dur_ms = 1 / 1000\<rparr> None) 0 = Some 0"
  by (simp add: duration_of_string_def is_digit_def SHORT_UNITS_def digit_val_def
      period_next_def new_Period_def freq_ms_def new_Time_def new_Date_def MAX_DATE_def)
section \<open>Properties of Window\<close>

lemma le_div_iff_int:
  fixes k f t :: int
  assumes "0 < f"
  shows "k * f \<le> t \<longleftrightarrow> k \<le> t div f"
proof
  assume "k * f \<le> t"
  then have "(k * f) div f \<le> t div f" using assms by (rule zdiv_mono1)
  moreover have "(k * f) div f = k" using assms by simp
  ultimately show "k \<le> t div f" by simp
next
  assume "k \<le> t div f"
  then have "k * f \<le> (t div f) * f" using assms by (simp add: mult_right_mono)
  also have "\<dots> \<le> t" using assms by (metis div_mult_mod_eq pos_mod_sign le_add_same_cancel1)
  finally show "k * f \<le> t" .
qed

lemma index_loop_int:
  assumes "0 < f"
  shows "index_loop (of_int f) t2 k = [k .. t2 div f]"
proof (induction "of_int f :: real" t2 k rule: index_loop.induct)
  case (1 t2 k)
  have fr: "(0::real) < of_int f" using assms by simp
  have c: "(of_int k * of_int f \<le> (of_int t2 :: real)) \<longleftrightarrow> k \<le> t2 div f"
  proof -
    have "(of_int k * of_int f \<le> (of_int t2 :: real)) \<longleftrightarrow> k * f \<le> t2"
      by (metis of_int_le_iff of_int_mult)
    also have "\<dots> \<longleftrightarrow> k \<le> t2 div f"
      using assms by (rule le_div_iff_int)
    finally show ?thesis .
  qed
  show ?case
  proof (cases "k \<le> t2 div f")
    case True
    then have "index_loop (of_int f) t2 k = k # index_loop (of_int f) t2 (k + 1)"
      using fr c by (subst index_loop.simps) simp
    also have "\<dots> = k # [k + 1 .. t2 div f]"
      using 1 fr c True by simp
    also have "\<dots> = [k .. t2 div f]"
      using True by (simp add: upto_rec1)
    finally show ?thesis .
  next
    case False
    then show ?thesis using c by (subst index_loop.simps) simp
  qed
qed


lemma div_diff_mult_int:
  fixes t f m :: int
  assumes "f \<noteq> 0"
  shows "(t - m * f) div f = t div f - m"
  using div_mult_self1 [OF assms, of t "- m"] by simp

text \<open>The clipping of \<open>new Time\<close> lies between the floor and the ceiling.\<close>

lemma new_Time_bounds:
  assumes "\<bar>x\<bar> \<le> of_int MAX_DATE"
  obtains b where "new_Time x = Some b" and "\<lfloor>x\<rfloor> \<le> b" and "b \<le> \<lceil>x\<rceil>" and "\<bar>b\<bar> \<le> MAX_DATE"
proof -
  define b where "b = (if 0 \<le> x then \<lfloor>x\<rfloor> else \<lceil>x\<rceil>)"
  have 1: "new_Time x = Some b" using assms by (simp add: new_Time_def new_Date_def b_def)
  have 2: "\<lfloor>x\<rfloor> \<le> b" by (simp add: b_def floor_le_ceiling)
  have 3: "b \<le> \<lceil>x\<rceil>" by (simp add: b_def floor_le_ceiling)
  have "x \<le> of_int MAX_DATE" "of_int (- MAX_DATE) \<le> x" using assms by simp_all
  then have "\<lceil>x\<rceil> \<le> MAX_DATE" "- MAX_DATE \<le> \<lfloor>x\<rfloor>"
    by (simp_all only: ceiling_le_iff le_floor_iff)
  then have 4: "\<bar>b\<bar> \<le> MAX_DATE" using 2 3 by linarith
  show thesis using that [OF 1 2 3 4] .
qed

text \<open>
  With a frequency of a whole number \<open>f > 0\<close> of milliseconds the visited indexes are
  the integers from \<open>\<lceil>scanBegin / f\<rceil>\<close> to \<open>\<lfloor>t2 / f\<rfloor>\<close>.
\<close>

lemma period_indexes_int:
  assumes f: "freq_ms (w_period w) = of_int f" and pos: "0 < f"
    and b: "new_Time (fl (of_int t1 - dur_ms (w_duration w))) = Some b"
  obtains n where "b < n" and "n \<le> b + f" and "(n - p_offset (w_period w)) mod f = 0"
    and "period_indexes fl w t1 t2 =
           Some (if \<bar>n\<bar> \<le> MAX_DATE then [- ((- n) div f) .. t2 div f] else [])"
proof -
  obtain n where n: "period_next (w_period w) b = new_Time (of_int n)" "b < n" "n \<le> b + f"
      "(n - p_offset (w_period w)) mod f = 0"
    using period_next_facts [OF f pos, of b] by metis
  have pi: "period_indexes fl w t1 t2 =
      Some (if \<bar>n\<bar> \<le> MAX_DATE then [- ((- n) div f) .. t2 div f] else [])"
  proof (cases "\<bar>n\<bar> \<le> MAX_DATE")
    case True
    then have nx: "period_next (w_period w) b = Some n" using n(1) by (simp only: new_Time_valid)
    have fr: "(0::real) < of_int f" using pos by simp
    have "period_indexes fl w t1 t2 = Some (index_loop (of_int f) t2 \<lceil>(of_int n :: real) / of_int f\<rceil>)"
      unfolding period_indexes_def b option.case nx Let_def f using fr by (simp only: if_True)
    also have "\<dots> = Some [- ((- n) div f) .. t2 div f]"
      by (simp only: index_loop_int [OF pos] ceiling_of_int_divide)
    finally show ?thesis using True by (simp only: if_True)
  next
    case False
    then have nx: "period_next (w_period w) b = None" using n(1) by (simp only: new_Time_of_int if_False)
    have "period_indexes fl w t1 t2 = Some []"
      unfolding period_indexes_def b option.case nx ..
    then show ?thesis using False by (simp only: if_False)
  qed
  show thesis by (rule that [OF n(2) n(3) n(4) pi])
qed

lemma first_index_multiple:
  fixes a f n :: int
  assumes pos: "0 < f" and nm: "n mod f = 0" and lo: "a < n" and hi: "n \<le> a + f"
  shows "- ((- n) div f) = a div f + 1"
proof -
  obtain k where k: "n = k * f" using nm by (metis mod_eq_0_iff_dvd dvd_def mult.commute)
  have "(- n) div f = - k" using k pos by (simp add: mult_minus_left [symmetric] del: mult_minus_left)
  then have k0: "- ((- n) div f) = k" by simp
  have "(k - 1) * f \<le> a" using hi k by (simp add: algebra_simps)
  then have l1: "k - 1 \<le> a div f" using le_div_iff_int [OF pos] by simp
  have "\<not> k * f \<le> a" using lo k by simp
  then have l2: "\<not> k \<le> a div f" using le_div_iff_int [OF pos] by simp
  show ?thesis using k0 l1 l2 by linarith
qed

text \<open>The first index lies one or two above the index of the start of the scan.\<close>

lemma first_index_bounds:
  fixes a f n :: int
  assumes pos: "0 < f" and lo: "a < n" and hi: "n \<le> a + f"
  shows "a div f + 1 \<le> - ((- n) div f)" and "- ((- n) div f) \<le> a div f + 2"
proof -
  define k where "k = - ((- n) div f)"
  have n1: "n \<le> k * f" and n2: "k * f < n + f"
    using ceil_mult_bounds(1,2) [OF pos, of n] by (simp_all add: k_def)
  have "\<not> k * f \<le> a" using n1 lo by linarith
  then have "\<not> k \<le> a div f" using le_div_iff_int [OF pos] by simp
  then show "a div f + 1 \<le> - ((- n) div f)" by (simp add: k_def)
  have "(k - 2) * f \<le> a" using n2 hi by (simp add: algebra_simps)
  then have "k - 2 \<le> a div f" using le_div_iff_int [OF pos] by simp
  then show "- ((- n) div f) \<le> a div f + 2" by (simp add: k_def)
qed

text \<open>
  The number of indexes of a single instant \<open>t\<close>, from the place of the start \<open>b\<close>
  of the scan: \<open>b\<close> at least \<open>m\<close> frequencies before \<open>t\<close> gives at least
  \<open>m - 1\<close> indexes, and at least \<open>m\<close> when the boundaries of the period are
  multiples of the frequency; \<open>b\<close> at most \<open>m\<close> frequencies before \<open>t\<close> gives at
  most \<open>m\<close> indexes.
\<close>

lemma index_count:
  fixes b f n t :: int and m :: nat
  assumes pos: "0 < f" and lo: "b < n" and hi: "n \<le> b + f"
  defines "ks \<equiv> [- ((- n) div f) .. t div f]"
  shows "t - int m * f \<le> b \<Longrightarrow> length ks \<le> m"
    and "b \<le> t - int m * f \<Longrightarrow> m \<le> length ks + 1"
    and "b \<le> t - int m * f \<Longrightarrow> n mod f = 0 \<Longrightarrow> m \<le> length ks"
proof -
  have len: "length ks = nat (t div f - (- ((- n) div f)) + 1)" by (simp add: ks_def)
  have e: "(t - int m * f) div f = t div f - int m"
    using pos div_diff_mult_int [of f t "int m"] by simp
  note k = first_index_bounds [OF pos lo hi]
  show "length ks \<le> m" if "t - int m * f \<le> b"
  proof -
    have "(t - int m * f) div f \<le> b div f" using that pos by (intro zdiv_mono1) simp_all
    then show ?thesis using len e k(1) by simp
  qed
  show "m \<le> length ks + 1" if "b \<le> t - int m * f"
  proof -
    have "b div f \<le> (t - int m * f) div f" using that pos by (intro zdiv_mono1) simp_all
    then show ?thesis using len e k(2) by simp
  qed
  show "m \<le> length ks" if "b \<le> t - int m * f" and "n mod f = 0"
  proof -
    have "b div f \<le> (t - int m * f) div f" using that(1) pos by (intro zdiv_mono1) simp_all
    moreover have "- ((- n) div f) = b div f + 1"
      using first_index_multiple [OF pos that(2) lo hi] .
    ultimately show ?thesis using len e by simp
  qed
qed

text \<open>
  The facts behind claim C8, with the duration \<open>d\<close> in milliseconds and any number
  \<open>m\<close> of frequencies.
\<close>

lemma getIndexSet_facts:
  assumes f: "freq_ms (w_period w) = of_int f" and pos: "0 < f"
    and mono: "\<And>x y. x \<le> y \<Longrightarrow> fl x \<le> fl y"
    and whole: "\<And>n. \<bar>n\<bar> \<le> MAX_SAFE_INTEGER \<Longrightarrow> fl (of_int n) = of_int n"
    and t: "\<bar>t\<bar> \<le> MAX_DATE"
    and start: "\<bar>of_int t - dur_ms (w_duration w)\<bar> \<le> of_int MAX_DATE"
  obtains k where "period_indexes fl w t t = Some [k .. t div f]"
    and "\<And>m. dur_ms (w_duration w) \<le> of_nat m * of_int f \<Longrightarrow> length [k .. t div f] \<le> m"
    and "\<And>m. of_nat m * of_int f \<le> dur_ms (w_duration w) \<Longrightarrow> m \<le> length [k .. t div f] + 1"
    and "\<And>m. of_nat m * of_int f \<le> dur_ms (w_duration w) \<Longrightarrow> p_offset (w_period w) mod f = 0
           \<Longrightarrow> m \<le> length [k .. t div f]"
proof -
  define d where "d = dur_ms (w_duration w)"
  define x where "x = fl (of_int t - d)"
  have fl_int: "fl (of_int n) = of_int n" if "\<bar>n\<bar> \<le> MAX_DATE" for n
    using that by (intro whole) (simp add: MAX_DATE_def MAX_SAFE_INTEGER_def)
  have le_x: "of_int n \<le> x" if "of_int n \<le> of_int t - d" "\<bar>n\<bar> \<le> MAX_DATE" for n
    using mono [OF that(1)] fl_int [OF that(2)] by (simp add: x_def)
  have x_le: "x \<le> of_int n" if "of_int t - d \<le> of_int n" "\<bar>n\<bar> \<le> MAX_DATE" for n
    using mono [OF that(1)] fl_int [OF that(2)] by (simp add: x_def)
  have s1: "(of_int (- MAX_DATE) :: real) \<le> of_int t - d" and s2: "of_int t - d \<le> of_int MAX_DATE"
    using start by (simp_all add: d_def)
  have m0: "0 \<le> MAX_DATE" by (simp add: MAX_DATE_def)
  have "of_int (- MAX_DATE) \<le> x" using le_x [OF s1] m0 by simp
  moreover have "x \<le> of_int MAX_DATE" using x_le [OF s2] m0 by simp
  ultimately have xr: "\<bar>x\<bar> \<le> of_int MAX_DATE" by simp
  obtain b where b: "new_Time x = Some b" "\<lfloor>x\<rfloor> \<le> b" "b \<le> \<lceil>x\<rceil>" "\<bar>b\<bar> \<le> MAX_DATE"
    using new_Time_bounds [OF xr] by metis
  have bx: "new_Time (fl (of_int t - dur_ms (w_duration w))) = Some b"
    using b(1) by (simp only: x_def d_def)
  obtain n where n: "b < n" "n \<le> b + f" "(n - p_offset (w_period w)) mod f = 0"
      "period_indexes fl w t t = Some (if \<bar>n\<bar> \<le> MAX_DATE then [- ((- n) div f) .. t div f] else [])"
    using period_indexes_int [where fl = fl and w = w and ?t1.0 = t and ?t2.0 = t and b = b and f = f,
        OF f pos bx] by metis
  have up: "t - int m * f \<le> b" if "d \<le> of_nat m * of_int f" for m
  proof (cases "- MAX_DATE \<le> t - int m * f")
    case True
    have "0 \<le> int m * f" using pos by simp
    then have r: "\<bar>t - int m * f\<bar> \<le> MAX_DATE" using True t by linarith
    have "(of_int (t - int m * f) :: real) \<le> of_int t - d" using that by simp
    then have "of_int (t - int m * f) \<le> x" using r by (rule le_x)
    then have "t - int m * f \<le> \<lfloor>x\<rfloor>" by (simp only: le_floor_iff)
    then show ?thesis using b(2) by linarith
  next
    case False
    then show ?thesis using b(4) by linarith
  qed
  have dn: "b \<le> t - int m * f" if "of_nat m * of_int f \<le> d" for m
  proof -
    have le: "of_int t - d \<le> (of_int (t - int m * f) :: real)" using that by simp
    then have "(of_int (- MAX_DATE) :: real) \<le> of_int (t - int m * f)" using s1 by linarith
    then have "- MAX_DATE \<le> t - int m * f" by (simp only: of_int_le_iff)
    moreover have "0 \<le> int m * f" using pos by simp
    ultimately have r: "\<bar>t - int m * f\<bar> \<le> MAX_DATE" using t by linarith
    have "x \<le> of_int (t - int m * f)" using le r by (rule x_le)
    then have "\<lceil>x\<rceil> \<le> t - int m * f" by (simp only: ceiling_le_iff)
    then show ?thesis using b(3) by linarith
  qed
  have nmod: "n mod f = 0" if "p_offset (w_period w) mod f = 0"
  proof -
    have "f dvd n - p_offset (w_period w)" "f dvd p_offset (w_period w)"
      using n(3) that by (simp_all add: mod_eq_0_iff_dvd)
    then have "f dvd (n - p_offset (w_period w)) + p_offset (w_period w)" by (rule dvd_add)
    then show ?thesis by (simp add: mod_eq_0_iff_dvd)
  qed
  show thesis
  proof (cases "\<bar>n\<bar> \<le> MAX_DATE")
    case True
    define k where "k = - ((- n) div f)"
    have 1: "period_indexes fl w t t = Some [k .. t div f]" using n(4) True by (simp add: k_def)
    have 2: "length [k .. t div f] \<le> m" if "d \<le> of_nat m * of_int f" for m
      unfolding k_def using index_count(1) [OF pos n(1,2) up [OF that]] .
    have 3: "m \<le> length [k .. t div f] + 1" if "of_nat m * of_int f \<le> d" for m
      unfolding k_def using index_count(2) [OF pos n(1,2) dn [OF that]] .
    have 4: "m \<le> length [k .. t div f]"
      if "of_nat m * of_int f \<le> d" and "p_offset (w_period w) mod f = 0" for m
      unfolding k_def using index_count(3) [OF pos n(1,2) dn [OF that(1)] nmod [OF that(2)]] .
    show ?thesis using that [OF 1] 2 3 4 unfolding d_def by blast
  next
    case False
    have big: "MAX_DATE < n" using False n(1) b(4) by linarith
    have 1: "period_indexes fl w t t = Some [t div f + 1 .. t div f]" using n(4) False by simp
    have l: "length [t div f + 1 .. t div f] = 0" by simp
    have m1: "m \<le> 1" if "of_nat m * of_int f \<le> d" for m
    proof (rule ccontr)
      assume "\<not> m \<le> 1"
      then have "2 \<le> int m" by simp
      then have "2 * f \<le> int m * f" using pos by (intro mult_right_mono) simp_all
      then show False using dn [OF that] n(2) big t pos by linarith
    qed
    have m0: "m = 0" if "of_nat m * of_int f \<le> d" and "p_offset (w_period w) mod f = 0" for m
    proof (rule ccontr)
      assume "m \<noteq> 0"
      then have "1 \<le> int m" by simp
      then have "1 * f \<le> int m * f" using pos by (intro mult_right_mono) simp_all
      then show False using dn [OF that(1)] n(2) big t by linarith
    qed
    have 2: "length [t div f + 1 .. t div f] \<le> m" if "d \<le> of_nat m * of_int f" for m
      by simp
    have 3: "m \<le> length [t div f + 1 .. t div f] + 1" if "of_nat m * of_int f \<le> d" for m
      using m1 [OF that] by simp
    have 4: "m \<le> length [t div f + 1 .. t div f]"
      if "of_nat m * of_int f \<le> d" and "p_offset (w_period w) mod f = 0" for m
      using m0 [OF that] by simp
    show ?thesis using that [OF 1] 2 3 4 unfolding d_def by blast
  qed
qed


lemmas window_eval =
  getIndexSet_def period_indexes_def period_next_def new_Window_def new_Period_def freq_ms_def
  index_loop.simps index_string_def window_toString_def period_toString_def
  duration_toString_def int_string_def nat_string.simps digit_char_def new_Time_def
  new_Date_def MAX_DATE_def MAX_SAFE_INTEGER_def Let_def mono_def


section \<open>Properties of the reduction functions\<close>

subsection \<open>stdev\<close>

lemma avg_divisor:
  "length cleanValues = 0 \<Longrightarrow> foldl js_plus (Num 0) cleanValues = Num 0"
  by simp

lemma stdev_divisor:
  "apply_clean c values = Some cleanValues \<Longrightarrow> length values = 0 \<Longrightarrow> cleanValues = []"
  by (cases c) auto

lemma apply_clean_idem:
  assumes "apply_clean c values = Some cleanValues"
  shows "apply_clean c cleanValues = Some cleanValues"
proof (cases c)
  case keepMissing
  then show ?thesis using assms by simp
next
  case ignoreMissing
  then show ?thesis using assms by auto
next
  case zeroMissing
  then have "cleanValues = map (\<lambda>v. if isValid v then v else Num 0) values"
    using assms by simp
  then show ?thesis using zeroMissing by (simp add: comp_def)
next
  case propagateMissing
  then show ?thesis using assms by (simp split: if_splits)
next
  case noneIfEmpty
  then show ?thesis using assms by (simp split: if_splits)
qed

lemma avg_clean:
  assumes "apply_clean c values = Some cleanValues"
  shows "avg c cleanValues = js_mean cleanValues"
  using apply_clean_idem [OF assms] by (simp add: avg_def js_mean_def js_sum_def)

lemma stdev_general:
  assumes "apply_clean c values = Some cleanValues"
  shows "stdev c values =
     Math_sqrt (js_divide (js_sum (map (\<lambda>v. Math_pow2 (js_minus v (js_mean cleanValues))) cleanValues))
        (Num (of_nat (length values))))"
  using assms by (simp add: stdev_def avg_clean [OF assms] js_sum_def foldl_map)

lemma js_sum_Num: "foldl js_plus (Num a) (map Num xs) = Num (a + sum_list xs)"
  by (induction xs arbitrary: a) (simp_all add: js_plus_def add.assoc)

lemma js_mean_Num:
  assumes "xs \<noteq> []"
  shows "js_mean (map Num xs) = Num (sum_list xs / of_nat (length xs))"
  using assms by (simp add: js_mean_def js_sum_def js_sum_Num js_divide_def)

lemma stdev_numbers:
  assumes c: "apply_clean c values = Some (map Num xs)" and ne: "values \<noteq> []"
  shows "stdev c values =
     Num (sqrt ((\<Sum>x\<leftarrow>xs. (x - sum_list xs / of_nat (length xs)) ^ 2) / of_nat (length values)))"
proof -
  define \<mu> where "\<mu> = sum_list xs / of_nat (length xs)"
  have terms: "map (\<lambda>v. Math_pow2 (js_minus v (js_mean (map Num xs)))) (map Num xs)
      = map Num (map (\<lambda>x. (x - \<mu>) ^ 2) xs)"
  proof (cases "xs = []")
    case True
    then show ?thesis by simp
  next
    case False
    then show ?thesis
      by (simp add: js_mean_Num \<mu>_def js_minus_def Math_pow2_def comp_def)
  qed
  have nonneg: "0 \<le> (\<Sum>x\<leftarrow>xs. (x - \<mu>) ^ 2)"
    by (rule sum_list_nonneg) auto
  have len: "(of_nat (length values) :: real) \<noteq> 0" using ne by simp
  have "0 \<le> (\<Sum>x\<leftarrow>xs. (x - \<mu>) ^ 2) / of_nat (length values)"
    using nonneg by simp
  then have pos: "\<not> (\<Sum>x\<leftarrow>xs. (x - \<mu>) ^ 2) / of_nat (length values) < 0"
    by simp
  have s: "js_sum (map Num ys) = Num (sum_list ys)" for ys
    by (simp add: js_sum_def js_sum_Num)
  show ?thesis
    unfolding stdev_general [OF c] terms s
    using len pos by (simp add: js_divide_def Math_sqrt_def \<mu>_def)
qed

text \<open>
  Claim C9: whenever the cleaning strategy returns a list, \<open>stdev\<close> is the square
  root of the sum of the squared deviations of the cleaned values from their mean, divided
  by the length of the input list, not of the cleaned one. The first conjunct is in
  JavaScript arithmetic for every cleaned list; the second is the same in the reals when
  the cleaned values are numbers and the input is not empty.
\<close>

theorem stdev_divides_by_input_length:
  assumes "apply_clean c values = Some cleanValues"
  shows "stdev c values =
       Math_sqrt (js_divide
         (js_sum (map (\<lambda>v. Math_pow2 (js_minus v (js_mean cleanValues))) cleanValues))
         (Num (of_nat (length values))))
     \<and> (\<forall>xs. cleanValues = map Num xs \<and> values \<noteq> [] \<longrightarrow>
          stdev c values =
            Num (sqrt ((\<Sum>x\<leftarrow>xs. (x - sum_list xs / of_nat (length xs)) ^ 2)
                 / of_nat (length values))))"
  using stdev_general [OF assms] stdev_numbers [of c "values"] assms by blast

theorem stdev_divides_by_input_length_witness:
  "apply_clean ignoreMissing [Num 1, Null, Num 3] = Some (map Num [1, 3])
   \<and> [Num 1, Null, Num (3::real)] \<noteq> []
   \<and> stdev ignoreMissing [Num 1, Null, Num 3] = Num (sqrt (2 / 3))"
  using stdev_divides_by_input_length [of ignoreMissing "[Num 1, Null, Num 3]" "map Num [1, 3]"]
  by (simp add: js_sum_def js_mean_def js_plus_def js_divide_def js_minus_def Math_pow2_def
      Math_sqrt_def)

subsection \<open>median\<close>

text \<open>
  The comparison of strings code unit by code unit is the lexicographic order of HOL on
  lists of characters, and the sort of the source is the stable sort of HOL by the key
  \<open>js_toString str\<close>, with the \<open>undefined\<close> elements moved to the end.
\<close>

lemma string_less_iff_less: "string_less a b \<longleftrightarrow> a < b"
  by (induction a b rule: string_less.induct) (auto simp: less_char_def)

lemma sort_after_defined:
  "x \<noteq> Undefined \<Longrightarrow> y \<noteq> Undefined
   \<Longrightarrow> sort_after str x y \<longleftrightarrow> js_toString str y < js_toString str x"
  by (cases x; cases y) (simp_all add: string_less_iff_less)

lemma js_insert_defined:
  assumes "x \<noteq> Undefined" and "\<forall>y \<in> set ys. y \<noteq> Undefined" and "\<forall>u \<in> set us. u = Undefined"
  shows "js_insert str x (ys @ us) = insort_key (js_toString str) x ys @ us"
  using assms(2)
proof (induction ys)
  case Nil
  show ?case
  proof (cases us)
    case Nil
    then show ?thesis by simp
  next
    case (Cons u us')
    then have "u = Undefined" using assms(3) by simp
    then have "\<not> sort_after str x u" using assms(1) by (cases x) simp_all
    then show ?thesis using Cons by simp
  qed
next
  case (Cons y ys)
  then have "y \<noteq> Undefined" by simp
  then have "sort_after str x y \<longleftrightarrow> \<not> js_toString str x \<le> js_toString str y"
    using sort_after_defined [OF assms(1), of y str] by (simp add: not_le)
  then show ?case using Cons by simp
qed

lemma js_insert_undefined:
  assumes "\<forall>y \<in> set ys. y \<noteq> Undefined" and "\<forall>u \<in> set us. u = Undefined"
  shows "js_insert str Undefined (ys @ us) = ys @ Undefined # us"
  using assms(1)
proof (induction ys)
  case Nil
  show ?case
  proof (cases us)
    case Nil
    then show ?thesis by simp
  next
    case (Cons u us')
    then have "u = Undefined" using assms(2) by simp
    then show ?thesis using Cons by simp
  qed
next
  case (Cons y ys)
  then have "y \<noteq> Undefined" by simp
  then have "sort_after str Undefined y" by (cases y) simp_all
  then show ?case using Cons by simp
qed

lemma js_sort_sort_key:
  "js_sort str vs =
     sort_key (js_toString str) (filter (\<lambda>v. v \<noteq> Undefined) vs) @ filter (\<lambda>v. v = Undefined) vs"
proof (induction vs)
  case Nil
  show ?case by (simp add: js_sort_def)
next
  case (Cons v vs)
  define ys where "ys = sort_key (js_toString str) (filter (\<lambda>v. v \<noteq> Undefined) vs)"
  define us where "us = filter (\<lambda>v. v = Undefined) vs"
  have ys: "\<forall>y \<in> set ys. y \<noteq> Undefined" by (simp add: ys_def)
  have us: "\<forall>u \<in> set us. u = Undefined" by (simp add: us_def)
  have step: "js_sort str (v # vs) = js_insert str v (ys @ us)"
    using Cons by (simp add: js_sort_def ys_def us_def)
  show ?case
  proof (cases "v = Undefined")
    case True
    then show ?thesis
      unfolding step using js_insert_undefined [OF ys us, of str]
      by (simp add: ys_def us_def)
  next
    case False
    then show ?thesis
      unfolding step using js_insert_defined [OF False ys us, of str]
      by (simp add: ys_def us_def)
  qed
qed

lemma js_sort_numbers: "js_sort str (map Num xs) = map Num (sort_key str xs)"
proof -
  have f1: "filter (\<lambda>v. v \<noteq> Undefined) (map Num xs) = map Num xs"
    by (induction xs) simp_all
  have f2: "filter (\<lambda>v. v = Undefined) (map Num xs) = []"
    by (induction xs) simp_all
  have k: "sort_key (js_toString str) (map Num ys) = map Num (sort_key str ys)" for ys
  proof (induction ys)
    case Nil
    show ?case by simp
  next
    case (Cons y ys)
    have "insort_key (js_toString str) (Num y) (map Num zs) = map Num (insort_key str y zs)" for zs
      by (induction zs) simp_all
    then show ?case using Cons by simp
  qed
  show ?thesis by (simp only: js_sort_sort_key f1 f2 k append_Nil2)
qed

lemma length_js_sort: "length (js_sort str vs) = length vs"
proof -
  have "length vs = length (filter (\<lambda>v. v \<noteq> Undefined) vs) + length (filter (\<lambda>v. \<not> v \<noteq> Undefined) vs)"
    by (rule sum_length_filter_compl [symmetric])
  then show ?thesis by (simp add: js_sort_sort_key)
qed

lemma median_numbers:
  assumes "apply_clean c values = Some (map Num xs)"
  shows "median str c values =
     (if xs = [] then NaN
      else if even (length xs)
      then Num ((sort_key str xs ! (length xs div 2) + sort_key str xs ! (length xs div 2 - 1)) / 2)
      else Num (sort_key str xs ! (length xs div 2)))"
proof -
  define s where "s = sort_key str xs"
  define i where "i = length xs div 2"
  have len: "length s = length xs" by (simp add: s_def)
  have srt: "js_sort str (map Num xs) = map Num s" by (simp add: js_sort_numbers s_def)
  have ii: "int (length xs) div 2 = int i" by (simp add: i_def zdiv_int)
  show ?thesis
  proof (cases "xs = []")
    case True
    then show ?thesis
      using assms by (simp add: median_def js_sort_def js_index_def js_plus_def js_divide_def)
  next
    case False
    then have pos: "0 < length xs" by simp
    show ?thesis
    proof (cases "even (length xs)")
      case True
      then obtain k where k: "length xs = 2 * k" by (elim evenE)
      then have i1: "1 \<le> i" "i < length xs" using pos by (simp_all add: i_def)
      have a: "js_index (map Num s) (int i) = Num (s ! i)"
        using i1 len by (simp add: js_index_def)
      have nn: "nat (int i - 1) = i - 1" using i1 by simp
      have b: "js_index (map Num s) (int i - 1) = Num (s ! (i - 1))"
        using i1 len by (simp add: js_index_def nn)
      have "median str c values = js_divide (js_plus (Num (s ! i)) (Num (s ! (i - 1)))) (Num 2)"
        using assms True by (simp add: median_def srt Let_def len ii a b even_iff_mod_2_eq_zero)
      then show ?thesis
        using False True by (simp add: js_plus_def js_divide_def s_def i_def)
    next
      case odd: False
      have i1: "i < length xs" using pos by (simp add: i_def)
      have a: "js_index (map Num s) (int i) = Num (s ! i)"
        using i1 len by (simp add: js_index_def)
      have "median str c values = Num (s ! i)"
        using assms odd by (simp add: median_def srt Let_def len ii a even_iff_mod_2_eq_zero)
      then show ?thesis
        using False odd by (simp add: s_def i_def)
    qed
  qed
qed

text \<open>
  Claim C10: \<open>median\<close> sorts the cleaned values by the default comparison, which
  compares the strings of the values code unit by code unit (the lexicographic order on
  strings), not the numbers: the sorted array is the cleaned values in the order of their
  strings, \<open>undefined\<close> last. For cleaned values that are numbers, the result is the
  middle element of the list of these numbers sorted by their strings when their number
  is odd, the mean of its two middle elements when it is even, and \<open>NaN\<close> when there
  is none. This holds whatever \<open>Number.prototype.toString\<close> prints; as it prints 2, 9
  and 10 as their numerals, these three values sort as 10, 2, 9 and the result is 2,
  while the numeric median is 9.
\<close>

theorem median_sorts_by_string:
  assumes "apply_clean c values = Some (map Num xs)"
  shows "median str c values =
           (if xs = [] then NaN
            else if even (length xs)
            then Num ((sort_key str xs ! (length xs div 2)
                       + sort_key str xs ! (length xs div 2 - 1)) / 2)
            else Num (sort_key str xs ! (length xs div 2)))
     \<and> js_sort str vs =
           sort_key (js_toString str) (filter (\<lambda>v. v \<noteq> Undefined) vs)
           @ filter (\<lambda>v. v = Undefined) vs
     \<and> (string_less a b \<longleftrightarrow> (a, b) \<in> lexord {(u, v). (of_char u :: nat) < of_char v})
     \<and> (string_less a b \<longleftrightarrow> a < b)
     \<and> (str 2 = ''2'' \<and> str 9 = ''9'' \<and> str 10 = ''10''
          \<longrightarrow> sort_key str [2, 9, 10] = [10, 2, 9]
              \<and> median str ignoreMissing [Num 2, Num 9, Num 10] = Num 2)
     \<and> numeric_median [2, 9, 10] = 9"
proof -
  have lx: "string_less a b \<longleftrightarrow> (a, b) \<in> lexord {(u, v). (of_char u :: nat) < of_char v}"
    by (simp add: string_less_iff_less list_less_def less_char_def)
  have ex: "sort_key str [2, 9, 10] = [10, 2, 9]
      \<and> median str ignoreMissing [Num 2, Num 9, Num 10] = Num 2"
    if s: "str 2 = ''2'' \<and> str 9 = ''9'' \<and> str 10 = ''10''"
  proof -
    have k: "sort_key str [2, 9, 10] = [10, 2, 9]"
      using s by (simp add: string_less_iff_less [symmetric] not_less [symmetric])
    have "apply_clean ignoreMissing [Num 2, Num 9, Num 10] = Some (map Num [2, 9, 10])"
      by simp
    from median_numbers [OF this, of str] show ?thesis
      using k by simp
  qed
  have nm: "numeric_median [2, 9, 10] = 9"
    by (simp add: numeric_median_def)
  show ?thesis
    using median_numbers [OF assms, of str] js_sort_sort_key [of str vs] lx
      string_less_iff_less [of a b] ex nm
    by (intro conjI impI) simp_all
qed

theorem median_sorts_by_string_witness:
  "apply_clean ignoreMissing [Num 2, NaN, Num 9, Num 10] = Some (map Num [2, 9, 10])
   \<and> whole_number_string 2 = ''2'' \<and> whole_number_string 9 = ''9''
   \<and> whole_number_string 10 = ''10''
   \<and> median whole_number_string ignoreMissing [Num 2, NaN, Num 9, Num 10] = Num 2
   \<and> median whole_number_string ignoreMissing [Num 1, Num 30, Num 200] = Num 200
   \<and> median whole_number_string ignoreMissing [Num 7, Num 100, Null, Num 40, Num 5] = Num (45 / 2)
   \<and> median whole_number_string keepMissing [Num 5, Undefined, Num 31] = Num 5
   \<and> median whole_number_string ignoreMissing [] = NaN"
  using median_sorts_by_string [of ignoreMissing "[Num 2, NaN, Num 9, Num 10]" "[2, 9, 10]"
      whole_number_string "[Num 2, NaN, Num 9, Num 10]" "''10''" "''2''"]
  by (simp add: median_def js_sort_def js_index_def js_plus_def js_divide_def
      whole_number_string_def int_string_def nat_string.simps digit_char_def)
section \<open>Properties of Collection\<close>

subsection \<open>The key index\<close>

text \<open>
  Building the map from a list gives the invariant, so construction from a list,
  \<open>setEvents\<close>, \<open>takeLast\<close>, \<open>slice\<close> and \<open>filter\<close> establish it, and
  \<open>addEvent\<close> without \<open>dedup\<close> keeps it.
\<close>

lemma positions_of_snoc:
  "positions_of key (events @ [e]) k =
     positions_of key events k \<union> (if key e = k then {length events} else {})"
  by (auto simp: positions_of_def nth_append less_Suc_eq)

lemma buildKeyMap_snoc:
  "buildKeyMap key (events @ [e]) = keyMap_add (buildKeyMap key events) (key e) (length events)"
  by (simp add: buildKeyMap_def)

lemma buildKeyMap_positions:
  "buildKeyMap key events k =
     (if positions_of key events k = {} then None else Some (positions_of key events k))"
proof (induction events arbitrary: k rule: rev_induct)
  case Nil
  then show ?case by (simp add: buildKeyMap_def positions_of_def)
next
  case (snoc e events)
  show ?case
  proof (cases "k = key e")
    case True
    show ?thesis
      unfolding buildKeyMap_snoc positions_of_snoc keyMap_add_def True
      by (simp add: snoc [of "key e"])
  next
    case False
    then show ?thesis
      unfolding buildKeyMap_snoc positions_of_snoc keyMap_add_def
      by (simp add: snoc [of k])
  qed
qed

lemma key_index_ok_new_Collection: "key_index_ok key (new_Collection key events)"
  by (simp add: key_index_ok_def new_Collection_def buildKeyMap_positions)

lemma key_index_ok_setEvents: "key_index_ok key (setEvents key c events)"
  by (simp add: key_index_ok_def setEvents_def clone_def buildKeyMap_positions)

lemma key_index_ok_addEvent_NoDedup:
  assumes "key_index_ok key c"
  shows "\<exists>c'. addEvent key c e NoDedup = Inr c' \<and> key_index_ok key c'"
proof -
  define c' where "c' = clone (c_events c @ [e])
      ((c_keyMap c)(key e \<mapsto> insert (length (c_events c @ [e]) - 1)
          (case c_keyMap c (key e) of Some s \<Rightarrow> s | None \<Rightarrow> {})))"
  have ok: "case c_keyMap c k of Some s \<Rightarrow> s = positions_of key (c_events c) k
      | None \<Rightarrow> positions_of key (c_events c) k = {}" for k
    using assms by (simp add: key_index_ok_def)
  have "case c_keyMap c' k of Some s \<Rightarrow> s = positions_of key (c_events c') k
      | None \<Rightarrow> positions_of key (c_events c') k = {}" for k
  proof (cases "k = key e")
    case True
    show ?thesis
      using ok [of "key e"] unfolding True
      by (auto simp: c'_def clone_def positions_of_snoc split: option.splits)
  next
    case False
    then show ?thesis
      using ok [of k]
      by (auto simp: c'_def clone_def positions_of_snoc split: option.splits)
  qed
  then have "key_index_ok key c'" by (simp add: key_index_ok_def)
  moreover have "addEvent key c e NoDedup = Inr c'"
    by (simp add: addEvent_def Let_def c'_def)
  ultimately show ?thesis by blast
qed

lemma key_index_ok_takeLast: "key_index_ok key (takeLast key c amount)"
  by (simp add: key_index_ok_def takeLast_def clone_def buildKeyMap_positions Let_def)

lemma key_index_ok_slice: "key_index_ok key (slice key c b e)"
  by (simp add: slice_def Let_def key_index_ok_setEvents)

lemma key_index_ok_filter: "key_index_ok key (filter_collection key c predicate)"
  by (simp add: filter_collection_def key_index_ok_setEvents)

text \<open>
  Claim C4 fails on \<open>addEvent\<close> with \<open>dedup\<close>. The collection built from an event
  with key \<open>k1\<close> followed by one with key \<open>k2\<close> has the invariant. Adding a
  second event with key \<open>k1\<close> and \<open>dedup = true\<close> removes the first event, which
  moves the event of \<open>k2\<close> to position 0, while the map still stores position 1 for
  \<open>k2\<close>: the invariant is lost.
\<close>

theorem addEvent_dedup_stale_positions:
  "key_index_ok fst (new_Collection fst [(''k1'', 1::int), (''k2'', 2)])
   \<and> \<not> isl (addEvent fst (new_Collection fst [(''k1'', 1::int), (''k2'', 2)]) (''k1'', 3) DedupTrue)
   \<and> c_events (projr (addEvent fst (new_Collection fst [(''k1'', 1::int), (''k2'', 2)]) (''k1'', 3) DedupTrue))
       = [(''k2'', 2), (''k1'', 3)]
   \<and> c_keyMap (projr (addEvent fst (new_Collection fst [(''k1'', 1::int), (''k2'', 2)]) (''k1'', 3) DedupTrue)) ''k2''
       = Some {1}
   \<and> positions_of fst [(''k2'', 2::int), (''k1'', 3)] ''k2'' = {0}
   \<and> \<not> key_index_ok fst
         (projr (addEvent fst (new_Collection fst [(''k1'', 1::int), (''k2'', 2)]) (''k1'', 3) DedupTrue))"
proof -
  let ?r = "addEvent fst (new_Collection fst [(''k1'', 1::int), (''k2'', 2)]) (''k1'', 3) DedupTrue"
  have r: "?r = Inr \<lparr>c_events = [(''k2'', 2), (''k1'', 3)],
      c_keyMap = [''k1'' \<mapsto> {0}, ''k2'' \<mapsto> {1}](''k1'' \<mapsto> {1})\<rparr>"
    by (simp add: addEvent_def new_Collection_def buildKeyMap_def keyMap_add_def atKey_def
        clone_def Let_def)
  have p: "positions_of fst [(''k2'', 2::int), (''k1'', 3)] ''k2'' = {0}"
    by (auto simp: positions_of_def less_Suc_eq)
  have "\<not> key_index_ok fst (projr ?r)"
  proof
    assume "key_index_ok fst (projr ?r)"
    then have "case c_keyMap (projr ?r) ''k2'' of
        Some s \<Rightarrow> s = positions_of fst (c_events (projr ?r)) ''k2''
      | None \<Rightarrow> positions_of fst (c_events (projr ?r)) ''k2'' = {}"
      unfolding key_index_ok_def by (rule spec)
    then show False by (simp add: r p)
  qed
  then show ?thesis
    using key_index_ok_new_Collection [of fst "[(''k1'', 1::int), (''k2'', 2)]"] p
    by (simp add: r)
qed

subsection \<open>quantile\<close>

lemma quantile_body_lower:
  "quantile_body svals interp i =
     (let index = \<lfloor>(of_nat (length svals) - 1) * i\<rfloor>
      in if index < int (length svals) - 1 then [svals ! nat index] else [])"
  by (simp add: quantile_body_def truthy_def Let_def)

lemma quantile_loop_ignores_interp:
  "quantile_loop svals interp subsets i = quantile_loop svals interp' subsets i"
proof (induction svals interp subsets i rule: quantile_loop.induct)
  case (1 svals interp subsets i)
  show ?case
  proof (cases "0 < subsets \<and> i < 1")
    case True
    then show ?thesis
      using 1 quantile_loop.simps [of svals interp subsets i]
        quantile_loop.simps [of svals interp' subsets i]
      by (simp add: quantile_body_lower)
  next
    case False
    have "quantile_loop svals j subsets i = []" for j
      using False by (subst quantile_loop.simps) auto
    then show ?thesis by simp
  qed
qed


lemma quantile_ignores_interp: "quantile column c n interp = quantile column c n interp'"
  using quantile_loop_ignores_interp [of _ interp _ _ interp']
  by (simp add: quantile_def Let_def)

lemma quantile_too_many:
  "n > length (c_events c) \<Longrightarrow>
     quantile column c n interp = Inl (Error ''Subset n is greater than the Collection length'')"
  by (simp add: quantile_def)

text \<open>
  Claim C6 fails on the interpolation. For the two values 0 and 10 and \<open>n = 2\<close> the one
  cut point lies half way between them; linear interpolation gives 5, and \<open>quantile\<close>
  with the linear policy returns the lower neighbour 0, as it does for every policy.
\<close>

theorem quantile_linear_returns_lower:
  "quantile id (new_Collection (\<lambda>e. ''k'') [0, 10]) 2 interp_linear = Inr [0]
   \<and> interpolate interp_linear 0 10 (1 / 2) = 5"
  by (simp add: quantile_def new_Collection_def quantile_loop.simps quantile_body_def truthy_def)

section \<open>Properties of Align\<close>

text \<open>
  On the first event \<open>addEvent\<close> records the event and returns the empty list, whether
  or not the event is aligned.
\<close>

lemma align_first_event:
  assumes "a_previous a = None" and "is_Time (e_key e)"
  shows "align_addEvent a e = Some (Inr ([], a\<lparr>a_previous := Some e\<rparr>))"
  using assms by (simp add: align_addEvent_def Let_def)


section \<open>Properties of index strings\<close>

subsection \<open>Matching is membership\<close>

lemma nullable_lang: "nullable r \<longleftrightarrow> [] \<in> lang r"
proof (induction r)
  case (Star r)
  show ?case by (simp add: star.star_empty)
qed auto

lemma lang_SeqI: "u \<in> lang r \<Longrightarrow> v \<in> lang s \<Longrightarrow> u @ v \<in> lang (Seq r s)"
  unfolding lang.simps by blast

lemma star_cons:
  assumes "c # w \<in> star A"
  shows "\<exists>u v. w = u @ v \<and> c # u \<in> A \<and> v \<in> star A"
  using assms
proof (induction "c # w" arbitrary: w rule: star.induct)
  case (star_step u v)
  show ?case
  proof (cases u)
    case Nil
    then show ?thesis using star_step by simp
  next
    case (Cons a u')
    then show ?thesis using star_step by auto
  qed
qed

lemma lang_deriv: "w \<in> lang (deriv c r) \<longleftrightarrow> c # w \<in> lang r"
proof (induction r arbitrary: w)
  case Zero
  then show ?case by simp
next
  case One
  then show ?case by simp
next
  case (Class cs)
  then show ?case by auto
next
  case (Alt r s)
  then show ?case by simp
next
  case (Seq r s)
  show ?case
  proof
    assume "w \<in> lang (deriv c (Seq r s))"
    then consider (l) u v where "w = u @ v" "u \<in> lang (deriv c r)" "v \<in> lang s"
      | (r) "nullable r" "w \<in> lang (deriv c s)"
      by (auto split: if_splits)
    then show "c # w \<in> lang (Seq r s)"
    proof cases
      case l
      then have "c # u \<in> lang r" using Seq.IH(1) by simp
      then have "(c # u) @ v \<in> lang (Seq r s)" using l by (intro lang_SeqI)
      then show ?thesis using l by simp
    next
      case r
      then have "[] \<in> lang r" "c # w \<in> lang s" using Seq.IH(2) nullable_lang by simp_all
      then have "[] @ (c # w) \<in> lang (Seq r s)" by (intro lang_SeqI)
      then show ?thesis by simp
    qed
  next
    assume "c # w \<in> lang (Seq r s)"
    then obtain u v where uv: "c # w = u @ v" "u \<in> lang r" "v \<in> lang s" by auto
    show "w \<in> lang (deriv c (Seq r s))"
    proof (cases u)
      case Nil
      then have "nullable r" "w \<in> lang (deriv c s)"
        using uv Seq.IH(2) nullable_lang by simp_all
      then show ?thesis by simp
    next
      case (Cons a u')
      then have "a = c" "w = u' @ v" "u' \<in> lang (deriv c r)"
        using uv Seq.IH(1) by simp_all
      then have "u' @ v \<in> lang (Seq (deriv c r) s)" using uv by (intro lang_SeqI)
      then show ?thesis using \<open>w = u' @ v\<close> by simp
    qed
  qed
next
  case (Star r)
  show ?case
  proof
    assume "w \<in> lang (deriv c (Star r))"
    then obtain u v where "w = u @ v" "u \<in> lang (deriv c r)" "v \<in> star (lang r)" by auto
    then have "c # u \<in> lang r" "v \<in> star (lang r)" "w = u @ v" using Star.IH by simp_all
    then have "(c # u) @ v \<in> star (lang r)" by (intro star.star_step)
    then show "c # w \<in> lang (Star r)" using \<open>w = u @ v\<close> by simp
  next
    assume "c # w \<in> lang (Star r)"
    then obtain u v where "w = u @ v" "c # u \<in> lang r" "v \<in> star (lang r)"
      using star_cons [of c w "lang r"] by auto
    then have "u @ v \<in> lang (Seq (deriv c r) (Star r))"
      using Star.IH by (intro lang_SeqI) simp_all
    then show "w \<in> lang (deriv c (Star r))" using \<open>w = u @ v\<close> by simp
  qed
qed

lemma matches_lang: "matches r w \<longleftrightarrow> w \<in> lang r"
  by (induction w arbitrary: r) (simp_all add: nullable_lang lang_deriv)

subsection \<open>The strings of the index expression\<close>

lemma star_concat:
  assumes "set ws \<subseteq> A"
  shows "concat ws \<in> star A"
  using assms by (induction ws) (auto intro: star.intros)

lemma star_is_concat:
  assumes "w \<in> star A"
  shows "\<exists>ws. w = concat ws \<and> set ws \<subseteq> A"
  using assms
proof (induction rule: star.induct)
  case star_empty
  have "[] = concat [] \<and> set [] \<subseteq> A" by simp
  then show ?case by blast
next
  case (star_step u v)
  then obtain ws where "v = concat ws" "set ws \<subseteq> A" by blast
  then have "u @ v = concat (u # ws) \<and> set (u # ws) \<subseteq> A" using star_step by simp
  then show ?case by blast
qed

lemma star_Class: "s \<in> star {[c] | c. c \<in> set cs} \<longleftrightarrow> set s \<subseteq> set cs"
proof
  assume "s \<in> star {[c] | c. c \<in> set cs}"
  then show "set s \<subseteq> set cs" by (induction rule: star.induct) auto
next
  assume "set s \<subseteq> set cs"
  then show "s \<in> star {[c] | c. c \<in> set cs}"
  proof (induction s)
    case Nil
    then show ?case by (simp add: star.star_empty)
  next
    case (Cons a s)
    then have "[a] \<in> {[c] | c. c \<in> set cs}" "s \<in> star {[c] | c. c \<in> set cs}" by auto
    then have "[a] @ s \<in> star {[c] | c. c \<in> set cs}" by (rule star.star_step)
    then show ?case by simp
  qed
qed

lemma lang_Class: "s \<in> lang (Class cs) \<longleftrightarrow> (\<exists>c. s = [c] \<and> c \<in> set cs)"
  by auto

lemma lang_Seq: "s \<in> lang (Seq r1 r2) \<longleftrightarrow> (\<exists>u v. s = u @ v \<and> u \<in> lang r1 \<and> v \<in> lang r2)"
  by auto

lemma lang_Star_Class: "s \<in> lang (Star (Class cs)) \<longleftrightarrow> set s \<subseteq> set cs"
  using star_Class [of s cs] by simp

lemma lang_digits: "s \<in> lang digits_rexp \<longleftrightarrow> all_digits s"
proof -
  define DIG where "DIG = ''0123456789''"
  have D: "c \<in> set DIG \<longleftrightarrow> is_digit c" for c
    by (simp only: is_digit_def DIG_def)
  have "s \<in> lang digits_rexp \<longleftrightarrow> (\<exists>c v. s = [c] @ v \<and> c \<in> set DIG \<and> set v \<subseteq> set DIG)"
    unfolding digits_rexp_def Plus_def DIG_def [symmetric] lang_Seq lang_Class lang_Star_Class
    by blast
  also have "\<dots> \<longleftrightarrow> (\<exists>c v. s = c # v \<and> is_digit c \<and> list_all is_digit v)"
    by (simp add: D subset_iff list_all_iff Ball_def)
  also have "\<dots> \<longleftrightarrow> all_digits s"
    unfolding all_digits_def by (cases s) simp_all
  finally show ?thesis .
qed

lemma lang_unit: "s \<in> lang (Seq digits_rexp (Class ''smhdlun'')) \<longleftrightarrow> s \<in> unit_strings"
proof -
  define U where "U = ''smhdlun''"
  have "s \<in> lang (Seq digits_rexp (Class U))
      \<longleftrightarrow> (\<exists>u v. s = u @ v \<and> all_digits u \<and> (\<exists>c. v = [c] \<and> c \<in> set U))"
    unfolding lang_Seq lang_Class lang_digits ..
  also have "\<dots> \<longleftrightarrow> (\<exists>ds u. s = ds @ [u] \<and> all_digits ds \<and> u \<in> set U)"
    by blast
  also have "\<dots> \<longleftrightarrow> s \<in> unit_strings"
    unfolding unit_strings_def U_def by blast
  finally show ?thesis unfolding U_def .
qed

lemma lang_iteration:
  "lang (Seq (Seq digits_rexp (Class ''smhdlun'')) (Class ''@'')) = (\<lambda>x. x @ ''@'') ` unit_strings"
proof -
  have "s \<in> lang (Seq (Seq digits_rexp (Class ''smhdlun'')) (Class ''@''))
      \<longleftrightarrow> (\<exists>x. s = x @ ''@'' \<and> x \<in> unit_strings)" for s
    unfolding lang_Seq [of s] lang_Class lang_unit by auto
  then show ?thesis by blast
qed

lemma lang_offset:
  "lang (Seq (Class ''+'') digits_rexp) = (\<lambda>x. CHR ''+'' # x) ` {x. all_digits x}"
proof -
  have "s \<in> lang (Seq (Class ''+'') digits_rexp) \<longleftrightarrow> (\<exists>x. s = CHR ''+'' # x \<and> all_digits x)" for s
    unfolding lang_Seq [of s] lang_Class lang_digits by auto
  then show ?thesis by blast
qed

lemma lang_index_tail:
  "t \<in> lang (Seq (Class ''-'') digits_rexp) \<longleftrightarrow> (\<exists>idx. all_digits idx \<and> t = ''-'' @ idx)"
  unfolding lang_Seq [of t] lang_Class lang_digits by auto

lemma subset_image_map:
  assumes "set ws \<subseteq> f ` A"
  shows "\<exists>xs. set xs \<subseteq> A \<and> ws = map f xs"
  using assms
proof (induction ws)
  case Nil
  then show ?case by simp
next
  case (Cons w ws)
  from Cons.prems have "w \<in> f ` A" "set ws \<subseteq> f ` A" by simp_all
  then obtain x where x: "x \<in> A" "w = f x" by blast
  obtain xs where xs: "set xs \<subseteq> A" "ws = map f xs"
    using Cons.IH [OF \<open>set ws \<subseteq> f ` A\<close>] by blast
  from x xs have "set (x # xs) \<subseteq> A \<and> w # ws = map f (x # xs)" by simp
  then show ?case by (rule exI [of _ "x # xs"])
qed

lemma star_image_concat:
  "s \<in> star (f ` A) \<longleftrightarrow> (\<exists>xs. set xs \<subseteq> A \<and> s = concat (map f xs))"
proof
  assume "s \<in> star (f ` A)"
  then obtain ws where ws: "s = concat ws" "set ws \<subseteq> f ` A" using star_is_concat by blast
  then have "\<exists>xs. set xs \<subseteq> A \<and> ws = map f xs"
    by (simp add: subset_image_map)
  then show "\<exists>xs. set xs \<subseteq> A \<and> s = concat (map f xs)" using ws by blast
next
  assume "\<exists>xs. set xs \<subseteq> A \<and> s = concat (map f xs)"
  then obtain xs where "set xs \<subseteq> A" "s = concat (map f xs)" by blast
  then show "s \<in> star (f ` A)" using star_concat [of "map f xs" "f ` A"] by auto
qed


lemma lang_indexStringRegex:
  "s \<in> lang indexStringRegex \<longleftrightarrow>
     (\<exists>iters freq offs idx. set iters \<subseteq> unit_strings \<and> freq \<in> unit_strings
        \<and> list_all all_digits offs \<and> all_digits idx
        \<and> s = build_index_string iters freq offs idx)"
proof -
  let ?I = "Seq (Seq digits_rexp (Class ''smhdlun'')) (Class ''@'')"
  let ?F = "Seq digits_rexp (Class ''smhdlun'')"
  let ?O = "Seq (Class ''+'') digits_rexp"
  let ?T = "Seq (Class ''-'') digits_rexp"
  have F: "lang ?F = unit_strings" using lang_unit by blast
  have split: "x \<in> lang indexStringRegex \<longleftrightarrow>
      (\<exists>a r1. x = a @ r1 \<and> a \<in> star (lang ?I) \<and>
        (\<exists>b r2. r1 = b @ r2 \<and> b \<in> lang ?F \<and>
          (\<exists>c d. r2 = c @ d \<and> c \<in> star (lang ?O) \<and> d \<in> lang ?T)))" for x
    unfolding indexStringRegex_def lang_Seq [of _ "Star ?I"] lang_Seq [of _ ?F "Seq (Star ?O) ?T"]
      lang_Seq [of _ "Star ?O" ?T] lang.simps(6) ..
  show ?thesis
  proof
    assume "s \<in> lang indexStringRegex"
    then obtain a b c d where s: "s = a @ b @ c @ d" and a: "a \<in> star (lang ?I)"
      and b: "b \<in> lang ?F" and c: "c \<in> star (lang ?O)" and d: "d \<in> lang ?T"
      unfolding split by blast
    obtain iters where iters: "set iters \<subseteq> unit_strings" "a = concat (map (\<lambda>x. x @ ''@'') iters)"
      using a unfolding lang_iteration star_image_concat by blast
    obtain offs where offs: "set offs \<subseteq> {x. all_digits x}" "c = concat (map (\<lambda>x. CHR ''+'' # x) offs)"
      using c unfolding lang_offset star_image_concat by blast
    obtain idx where idx: "all_digits idx" "d = ''-'' @ idx"
      using d unfolding lang_index_tail by blast
    have b': "b \<in> unit_strings" using b unfolding F .
    have "set iters \<subseteq> unit_strings \<and> b \<in> unit_strings \<and> list_all all_digits offs \<and> all_digits idx
        \<and> s = build_index_string iters b offs idx"
      using iters offs idx b' s by (simp add: build_index_string_def list_all_iff subset_iff)
    then show "\<exists>iters freq offs idx. set iters \<subseteq> unit_strings \<and> freq \<in> unit_strings
        \<and> list_all all_digits offs \<and> all_digits idx \<and> s = build_index_string iters freq offs idx"
      by (intro exI)
  next
    assume "\<exists>iters freq offs idx. set iters \<subseteq> unit_strings \<and> freq \<in> unit_strings
        \<and> list_all all_digits offs \<and> all_digits idx \<and> s = build_index_string iters freq offs idx"
    then obtain iters freq offs idx where h: "set iters \<subseteq> unit_strings" "freq \<in> unit_strings"
      "list_all all_digits offs" "all_digits idx" "s = build_index_string iters freq offs idx"
      by blast
    have a: "concat (map (\<lambda>x. x @ ''@'') iters) \<in> star (lang ?I)"
      unfolding lang_iteration star_image_concat using h(1) by (intro exI [of _ iters]) simp
    have c: "concat (map (\<lambda>x. CHR ''+'' # x) offs) \<in> star (lang ?O)"
      unfolding lang_offset star_image_concat using h(3)
      by (intro exI [of _ offs]) (simp add: list_all_iff subset_iff)
    have d: "''-'' @ idx \<in> lang ?T"
      unfolding lang_index_tail using h(4) by (intro exI [of _ idx]) simp
    have b: "freq \<in> lang ?F" using h(2) unfolding F .
    have cd: "\<exists>c d. concat (map (\<lambda>x. CHR ''+'' # x) offs) @ ''-'' @ idx = c @ d
        \<and> c \<in> star (lang ?O) \<and> d \<in> lang ?T"
      using c d by (intro exI [of _ "concat (map (\<lambda>x. CHR ''+'' # x) offs)"] exI [of _ "''-'' @ idx"]) simp
    have bcd: "\<exists>b r2. freq @ concat (map (\<lambda>x. CHR ''+'' # x) offs) @ ''-'' @ idx = b @ r2 \<and> b \<in> lang ?F \<and>
          (\<exists>c d. r2 = c @ d \<and> c \<in> star (lang ?O) \<and> d \<in> lang ?T)"
      using b cd by (intro exI [of _ freq] exI [of _ "concat (map (\<lambda>x. CHR ''+'' # x) offs) @ ''-'' @ idx"]) simp
    show "s \<in> lang indexStringRegex"
      unfolding split h(5) build_index_string_def
      using a bcd
      by (intro exI [of _ "concat (map (\<lambda>x. x @ ''@'') iters)"]
          exI [of _ "freq @ concat (map (\<lambda>x. CHR ''+'' # x) offs) @ ''-'' @ idx"]) simp
  qed
qed

subsection \<open>Decimal numerals\<close>

lemma digit_char_is_digit: "d < 10 \<Longrightarrow> is_digit (digit_char d)"
proof -
  assume "d < 10"
  then have "d \<in> {0,1,2,3,4,5,6,7,8,9}" by auto
  then show ?thesis by (auto simp: is_digit_def digit_char_def)
qed

lemma digit_val_digit_char: "d < 10 \<Longrightarrow> digit_val (digit_char d) = d"
proof -
  assume "d < 10"
  then have "d \<in> {0,1,2,3,4,5,6,7,8,9}" by auto
  then show ?thesis by (auto simp: digit_val_def digit_char_def)
qed

lemma nat_string_digits: "list_all is_digit (nat_string n)"
proof (induction n rule: nat_string.induct)
  case (1 n)
  show ?case
  proof (cases "n < 10")
    case True
    then show ?thesis by (subst nat_string.simps) (simp add: digit_char_is_digit)
  next
    case False
    then show ?thesis
      using 1 by (subst nat_string.simps) (simp add: digit_char_is_digit)
  qed
qed

lemma nat_string_nonempty: "nat_string n \<noteq> []"
  by (subst nat_string.simps) simp

lemma all_digits_nat_string: "all_digits (nat_string n)"
  by (simp add: all_digits_def nat_string_digits nat_string_nonempty)

lemma digits_val_append: "digits_val acc (xs @ ys) = digits_val (digits_val acc xs) ys"
  by (induction xs arbitrary: acc) simp_all

lemma digits_val_nat_string: "digits_val 0 (nat_string n) = n"
proof (induction n rule: nat_string.induct)
  case (1 n)
  show ?case
  proof (cases "n < 10")
    case True
    then show ?thesis by (subst nat_string.simps) (simp add: digit_val_digit_char)
  next
    case False
    then have "digits_val 0 (nat_string n) = 10 * (n div 10) + n mod 10"
      using 1 by (subst nat_string.simps) (simp add: digits_val_append digit_val_digit_char)
    then show ?thesis by simp
  qed
qed

lemma is_digit_not_space: "is_digit c \<Longrightarrow> \<not> is_space c"
  by (auto simp: is_digit_def is_space_def)

lemma is_digit_not_sign: "is_digit c \<Longrightarrow> c \<noteq> CHR ''-'' \<and> c \<noteq> CHR ''+'' \<and> c \<noteq> CHR ''@''"
  by (auto simp: is_digit_def)

lemma takeWhile_all: "list_all P xs \<Longrightarrow> takeWhile P xs = xs"
  by (induction xs) simp_all

lemma dropWhile_all: "list_all P xs \<Longrightarrow> dropWhile P xs = []"
  by (induction xs) simp_all

lemma parseInt_digits:
  assumes "all_digits ds"
  shows "parseInt ds = Some (int (digits_val 0 ds))"
proof -
  obtain c cs where ds: "ds = c # cs" using assms by (cases ds) (simp_all add: all_digits_def)
  have c: "is_digit c" and cs: "list_all is_digit cs" using assms ds by (simp_all add: all_digits_def)
  have "dropWhile is_space ds = ds" using c ds is_digit_not_space by simp
  moreover have "takeWhile is_digit ds = ds" using c cs ds by (simp add: takeWhile_all)
  ultimately show ?thesis
    using is_digit_not_sign [OF c] ds by (simp add: parseInt_def Let_def)
qed

lemma parseInt_nat_string: "parseInt (nat_string n) = Some (int n)"
  by (simp add: parseInt_digits all_digits_nat_string digits_val_nat_string)

lemma parseInt_empty: "parseInt [] = None"
  by (simp add: parseInt_def)

subsection \<open>The groups of a match\<close>

lemma split_on_notin: "c \<notin> set s \<Longrightarrow> split_on c s = [s]"
  by (induction s) auto

lemma split_on_nonempty: "split_on c s \<noteq> []"
  by (induction s) (simp_all split: list.splits)

lemma split_on_append: "c \<notin> set a \<Longrightarrow> split_on c (a @ c # b) = a # split_on c b"
  by (induction a) auto

lemma split_on_iterations:
  assumes "\<forall>x \<in> set xs. c \<notin> set x" and "c \<notin> set rest"
  shows "split_on c (concat (map (\<lambda>x. x @ [c]) xs) @ rest) = xs @ [rest]"
  using assms
proof (induction xs)
  case Nil
  then show ?case by (simp add: split_on_notin)
next
  case (Cons x xs)
  have "split_on c (x @ c # (concat (map (\<lambda>x. x @ [c]) xs) @ rest))
      = x # split_on c (concat (map (\<lambda>x. x @ [c]) xs) @ rest)"
    using Cons.prems by (intro split_on_append) simp
  then show ?case using Cons by simp
qed

lemma split_on_prefixed:
  assumes "\<forall>x \<in> set xs. c \<notin> set x" and "c \<notin> set y"
  shows "split_on c (y @ concat (map (\<lambda>x. c # x) xs)) = y # xs"
  using assms
proof (induction xs arbitrary: y)
  case Nil
  then show ?case by (simp add: split_on_notin)
next
  case (Cons x xs)
  have "split_on c (y @ c # (x @ concat (map (\<lambda>x. c # x) xs))) = y # split_on c (x @ concat (map (\<lambda>x. c # x) xs))"
    using Cons.prems by (intro split_on_append) simp
  moreover have "split_on c (x @ concat (map (\<lambda>x. c # x) xs)) = x # xs"
    using Cons.prems by (intro Cons.IH) simp_all
  ultimately show ?case by simp
qed

lemma all_digits_chars: "all_digits s \<Longrightarrow> x \<in> set s \<Longrightarrow> is_digit x"
  by (simp add: all_digits_def list_all_iff)

lemma unit_char_not_digit: "u \<in> set ''smhdlunw'' \<Longrightarrow> \<not> is_digit u"
  by (auto simp: is_digit_def)

lemma unit_char_not_sep:
  "u \<in> set ''smhdlunw'' \<Longrightarrow> u \<noteq> CHR ''@'' \<and> u \<noteq> CHR ''+'' \<and> u \<noteq> CHR ''-''"
  by auto

lemma all_digits_no_sep:
  assumes "all_digits s"
  shows "CHR ''@'' \<notin> set s" "CHR ''+'' \<notin> set s" "CHR ''-'' \<notin> set s"
  using all_digits_chars [OF assms] is_digit_not_sign by blast+

lemma unit_strings_no_sep:
  assumes "x \<in> unit_strings"
  shows "CHR ''@'' \<notin> set x" "CHR ''+'' \<notin> set x" "CHR ''-'' \<notin> set x"
proof -
  obtain ds u where x: "x = ds @ [u]" "all_digits ds" "u \<in> set ''smhdlun''"
    using assms by (auto simp: unit_strings_def)
  have u: "u \<noteq> CHR ''@'' \<and> u \<noteq> CHR ''+'' \<and> u \<noteq> CHR ''-''" using x(3) by auto
  show "CHR ''@'' \<notin> set x" "CHR ''+'' \<notin> set x" "CHR ''-'' \<notin> set x"
    using all_digits_no_sep [OF x(2)] u by (auto simp: x(1))
qed

lemma takeWhile_digits:
  assumes "all_digits ds" and "\<not> is_digit u"
  shows "takeWhile is_digit (ds @ u # rest) = ds" and "dropWhile is_digit (ds @ u # rest) = u # rest"
proof -
  have a: "\<forall>x \<in> set ds. is_digit x" using assms(1) by (simp add: all_digits_def list_all_iff)
  show "takeWhile is_digit (ds @ u # rest) = ds"
    using a assms(2) by (simp add: takeWhile_append2) 
  show "dropWhile is_digit (ds @ u # rest) = u # rest"
    using a assms(2) by (simp add: dropWhile_append2)
qed

lemma is_unit_string_iff: "is_unit_string s \<longleftrightarrow> s \<in> unit_strings"
proof
  assume h: "is_unit_string s"
  define ds where "ds = takeWhile is_digit s"
  define r where "r = dropWhile is_digit s"
  have s: "s = ds @ r" by (simp add: ds_def r_def)
  have p: "ds \<noteq> []" "length r = 1" "hd r \<in> set ''smhdlun''"
    using h by (simp_all add: is_unit_string_def ds_def r_def Let_def)
  then have r: "r = [hd r]" by (cases r) simp_all
  have "all_digits ds"
    using p(1) by (simp add: all_digits_def ds_def list_all_iff) (meson set_takeWhileD)
  then have "ds @ [hd r] \<in> unit_strings" using p(3) unfolding unit_strings_def by blast
  then show "s \<in> unit_strings" using s r by simp
next
  assume "s \<in> unit_strings"
  then obtain ds u where x: "s = ds @ [u]" "all_digits ds" "u \<in> set ''smhdlun''"
    by (auto simp: unit_strings_def)
  have nd: "\<not> is_digit u" using x(3) by (intro unit_char_not_digit) auto
  show "is_unit_string s"
    using takeWhile_digits [OF x(2) nd, of "[]"] x
    by (simp add: is_unit_string_def Let_def all_digits_def)
qed


lemma offsets_no_sep:
  assumes "list_all all_digits offs"
  shows "CHR ''@'' \<notin> set (concat (map (\<lambda>x. CHR ''+'' # x) offs))"
    and "CHR ''-'' \<notin> set (concat (map (\<lambda>x. CHR ''+'' # x) offs))"
  using assms all_digits_no_sep by (auto simp: list_all_iff)

lemma exec_build:
  assumes iters: "set iters \<subseteq> unit_strings" and ds: "all_digits ds" and u: "u \<in> set ''smhdlun''"
    and offs: "list_all all_digits offs" and idx: "all_digits idx"
  shows "indexStringRegex_exec (build_index_string iters (ds @ [u]) offs idx) =
     Some (if iters = [] then None else Some (last iters @ ''@''), ds @ [u],
           if offs = [] then None else Some (last offs), idx)"
proof -
  define P where "P = concat (map (\<lambda>x. CHR ''+'' # x) offs)"
  define rest where "rest = ds @ u # P @ CHR ''-'' # idx"
  have nd: "\<not> is_digit u" using u by (intro unit_char_not_digit) auto
  have us: "u \<noteq> CHR ''@'' \<and> u \<noteq> CHR ''+'' \<and> u \<noteq> CHR ''-''" using u by auto
  have rest_at: "CHR ''@'' \<notin> set rest"
    using all_digits_no_sep(1) [OF ds] all_digits_no_sep(1) [OF idx] offsets_no_sep(1) [OF offs] us
    by (auto simp: rest_def P_def)
  have b: "build_index_string iters (ds @ [u]) offs idx = concat (map (\<lambda>x. x @ [CHR ''@'']) iters) @ rest"
    by (simp add: build_index_string_def rest_def P_def)
  have segs: "split_on CHR ''@'' (build_index_string iters (ds @ [u]) offs idx) = iters @ [rest]"
    unfolding b using iters unit_strings_no_sep(1) rest_at
    by (intro split_on_iterations) auto
  have un: "list_all is_unit_string iters"
    using iters by (simp add: list_all_iff is_unit_string_iff subset_iff)
  have tw: "takeWhile is_digit rest = ds" "dropWhile is_digit rest = u # P @ CHR ''-'' # idx"
    unfolding rest_def using takeWhile_digits [OF ds nd] by simp_all
  have dash: "split_on CHR ''-'' (P @ CHR ''-'' # idx) = [P, idx]"
    using offsets_no_sep(2) [OF offs] all_digits_no_sep(3) [OF idx]
    by (simp add: split_on_append split_on_notin P_def)
  have "split_on CHR ''+'' ([] @ concat (map (\<lambda>x. CHR ''+'' # x) offs)) = [] # offs"
    using offs all_digits_no_sep(2) by (intro split_on_prefixed) (auto simp: list_all_iff)
  then have plus: "split_on CHR ''+'' P = [] # offs" by (simp add: P_def)
  have ne: "ds \<noteq> []" using ds by (simp add: all_digits_def)
  show ?thesis
    unfolding indexStringRegex_exec_def segs Let_def
    using un tw dash plus ne u offs idx by simp
qed


lemma split_on_join:
  "hd (split_on c s) @ concat (map (\<lambda>x. c # x) (tl (split_on c s))) = s"
proof (induction s)
  case Nil
  then show ?case by simp
next
  case (Cons a s)
  obtain p ps where p: "split_on c s = p # ps"
    using split_on_nonempty [of c s] by (cases "split_on c s") simp_all
  show ?case using Cons by (simp add: p)
qed

lemma join_forms:
  assumes "segs \<noteq> []"
  shows "hd segs @ concat (map (\<lambda>x. c # x) (tl segs))
       = concat (map (\<lambda>x. x @ [c]) (butlast segs)) @ last segs"
  using assms
proof (induction segs)
  case Nil
  then show ?case by simp
next
  case (Cons x segs)
  show ?case
  proof (cases "segs = []")
    case True
    then show ?thesis by simp
  next
    case False
    then obtain y ys where y: "segs = y # ys" by (cases segs) simp_all
    have "hd segs @ concat (map (\<lambda>x. c # x) (tl segs))
       = concat (map (\<lambda>x. x @ [c]) (butlast segs)) @ last segs"
      using Cons.IH False by simp
    then show ?thesis using False by (simp add: y)
  qed
qed

lemma exec_is_build:
  assumes "indexStringRegex_exec s = Some g"
  shows "\<exists>iters freq offs idx. set iters \<subseteq> unit_strings \<and> freq \<in> unit_strings
        \<and> list_all all_digits offs \<and> all_digits idx
        \<and> s = build_index_string iters freq offs idx"
proof -
  define segs where "segs = split_on CHR ''@'' s"
  define iters where "iters = butlast segs"
  define final where "final = last segs"
  define ds where "ds = takeWhile is_digit final"
  define r where "r = dropWhile is_digit final"
  have c1: "list_all is_unit_string iters" "ds \<noteq> []" "r \<noteq> []" "hd r \<in> set ''smhdlun''"
    using assms unfolding indexStringRegex_exec_def Let_def
      segs_def [symmetric] iters_def [symmetric] final_def [symmetric] ds_def [symmetric] r_def [symmetric]
    by (auto split: if_splits)
  obtain pluses i where pi: "split_on CHR ''-'' (tl r) = [pluses, i]"
    and c2: "hd (split_on CHR ''+'' pluses) = []" "list_all all_digits (tl (split_on CHR ''+'' pluses))"
      "all_digits i"
    using assms c1 unfolding indexStringRegex_exec_def Let_def
      segs_def [symmetric] iters_def [symmetric] final_def [symmetric] ds_def [symmetric] r_def [symmetric]
    by (auto split: if_splits list.splits)
  define offs where "offs = tl (split_on CHR ''+'' pluses)"
  have pl: "pluses = concat (map (\<lambda>x. CHR ''+'' # x) offs)"
    using split_on_join [of "CHR ''+''" pluses] c2(1) by (simp add: offs_def)
  have tlr: "tl r = pluses @ CHR ''-'' # i"
    using split_on_join [of "CHR ''-''" "tl r"] by (simp add: pi)
  have rr: "r = hd r # pluses @ CHR ''-'' # i"
    using c1(3) tlr by (cases r) simp_all
  have fin: "final = (ds @ [hd r]) @ pluses @ CHR ''-'' # i"
  proof -
    have "final = ds @ r" by (simp add: ds_def r_def)
    then show ?thesis using rr by simp
  qed
  have segs_ne: "segs \<noteq> []" by (simp add: segs_def split_on_nonempty)
  have "s = hd segs @ concat (map (\<lambda>x. CHR ''@'' # x) (tl segs))"
    unfolding segs_def by (rule split_on_join [symmetric])
  then have s: "s = concat (map (\<lambda>x. x @ ''@'') iters) @ final"
    using join_forms [OF segs_ne, of "CHR ''@''"] by (simp add: iters_def final_def)
  have a: "all_digits ds"
    using c1(2) by (simp add: all_digits_def ds_def list_all_iff) (meson set_takeWhileD)
  have f: "ds @ [hd r] \<in> unit_strings" using a c1(4) unfolding unit_strings_def by blast
  have it: "set iters \<subseteq> unit_strings"
    using c1(1) by (simp add: list_all_iff is_unit_string_iff subset_iff)
  have o: "list_all all_digits offs" using c2(2) by (simp add: offs_def)
  have "final = (ds @ [hd r]) @ concat (map (\<lambda>x. CHR ''+'' # x) offs) @ CHR ''-'' # i"
    using fin pl by simp
  then have e: "s = build_index_string iters (ds @ [hd r]) offs i"
    using s by (simp add: build_index_string_def)
  have "set iters \<subseteq> unit_strings \<and> ds @ [hd r] \<in> unit_strings
        \<and> list_all all_digits offs \<and> all_digits i
        \<and> s = build_index_string iters (ds @ [hd r]) offs i"
    using it f o c2(3) e by blast
  then show ?thesis by (intro exI)
qed

lemma exec_iff_isIndexString: "indexStringRegex_exec s \<noteq> None \<longleftrightarrow> isIndexString s"
proof
  assume "indexStringRegex_exec s \<noteq> None"
  then obtain g where "indexStringRegex_exec s = Some g" by blast
  then show "isIndexString s"
    using exec_is_build [of s g] by (simp add: isIndexString_def matches_lang lang_indexStringRegex)
next
  assume "isIndexString s"
  then obtain iters freq offs idx where h: "set iters \<subseteq> unit_strings" "freq \<in> unit_strings"
      "list_all all_digits offs" "all_digits idx" "s = build_index_string iters freq offs idx"
    unfolding isIndexString_def matches_lang lang_indexStringRegex by blast
  obtain ds u where f: "freq = ds @ [u]" "all_digits ds" "u \<in> set ''smhdlun''"
    using h(2) unfolding unit_strings_def by blast
  show "indexStringRegex_exec s \<noteq> None"
    unfolding h(5) f(1) using exec_build [OF h(1) f(2) f(3) h(3) h(4)] by simp
qed


text \<open>
  Claim C3 fails on the unit \<open>w\<close>: the string \<open>1w-123\<close> belongs to the grammar of
  the specification, and \<open>Duration\<close> reads \<open>1w\<close> as one week, but
  \<open>indexStringRegex\<close> has no \<open>w\<close> among its units, so \<open>isIndexString\<close>
  rejects the string and \<open>decodeIndexString\<close> throws on it.
\<close>

theorem isIndexString_rejects_weeks:
  "\<not> isIndexString ''1w-123''
   \<and> decodeIndexString ''1w-123'' = Inl (TypeError ''object null is not iterable'')
   \<and> matches spec_indexStringRegex ''1w-123''
   \<and> duration_of_string ''1w'' = Some \<lparr>dur_string = Some ''1w'', dur_ms = 604800000\<rparr>"
proof -
  have 1: "\<not> isIndexString ''1w-123''"
    by (simp add: isIndexString_def indexStringRegex_def digits_rexp_def Plus_def)
  have "indexStringRegex_exec ''1w-123'' = None"
    using 1 exec_iff_isIndexString [of "''1w-123''"] by blast
  then have 2: "decodeIndexString ''1w-123'' = Inl (TypeError ''object null is not iterable'')"
    by (simp add: decodeIndexString_def)
  have 3: "matches spec_indexStringRegex ''1w-123''"
    by (simp add: spec_indexStringRegex_def digits_rexp_def Plus_def)
  have 4: "duration_of_string ''1w'' = Some \<lparr>dur_string = Some ''1w'', dur_ms = 604800000\<rparr>"
    by (simp add: duration_of_string_def is_digit_def SHORT_UNITS_def digit_val_def)
  show ?thesis using 1 2 3 4 by blast
qed

subsection \<open>Decoding the index strings of a window\<close>

lemma duration_regex_exec_first:
  assumes "takeWhile is_digit s \<noteq> []" and "dropWhile is_digit s \<noteq> []"
    and "hd (dropWhile is_digit s) \<in> set ''nulsmhdw''"
  shows "duration_regex_exec s = Some (takeWhile is_digit s, hd (dropWhile is_digit s))"
proof (cases s)
  case Nil
  then show ?thesis using assms by simp
next
  case (Cons c cs)
  show ?thesis
    using assms unfolding Cons duration_regex_exec.simps Let_def by (simp only: if_True simp_thms)
qed

lemma duration_regex_exec_shorthand:
  assumes ds: "all_digits ds" and u: "u \<in> set ''nulsmhdw''"
  shows "duration_regex_exec (ds @ u # rest) = Some (ds, u)"
proof -
  have nd: "\<not> is_digit u" using u by (intro unit_char_not_digit) auto
  have ne: "ds \<noteq> []" using ds by (simp add: all_digits_def)
  have tw: "takeWhile is_digit (ds @ u # rest) = ds" "dropWhile is_digit (ds @ u # rest) = u # rest"
    using takeWhile_digits [OF ds nd, of rest] by simp_all
  show ?thesis
    using duration_regex_exec_first [of "ds @ u # rest"] u ne unfolding tw by simp
qed

lemma SHORT_UNITS_ms: "u \<in> set ''lsmhd'' \<Longrightarrow> SHORT_UNITS u = Some (of_int (unit_ms u))"
  by (auto simp: SHORT_UNITS_def unit_ms_def)

lemma duration_of_string_shorthand:
  assumes ds: "all_digits ds" and u: "u \<in> set ''lsmhd''"
  shows "duration_of_string (ds @ u # rest) =
     Some \<lparr>dur_string = Some (ds @ u # rest), dur_ms = of_int (int (digits_val 0 ds) * unit_ms u)\<rparr>"
proof -
  have "u \<in> set ''nulsmhdw''" using u by auto
  then show ?thesis
    using duration_regex_exec_shorthand [OF ds, of u rest] SHORT_UNITS_ms [OF u]
    by (simp add: duration_of_string_def)
qed

lemma shorthand_durationE:
  assumes "shorthand_duration d"
  obtains ds u where "all_digits ds" and "u \<in> set ''lsmhd''" and "dur_string d = Some (ds @ [u])"
    and "dur_ms d = of_int (int (digits_val 0 ds) * unit_ms u)"
proof -
  obtain s where s: "dur_string d = Some s" "is_ms_shorthand s" "duration_of_string s = Some d"
    using assms by (auto simp: shorthand_duration_def split: option.splits)
  define ds where "ds = takeWhile is_digit s"
  define r where "r = dropWhile is_digit s"
  have p: "ds \<noteq> []" "length r = 1" "hd r \<in> set ''lsmhd''"
    using s(2) by (simp_all add: is_ms_shorthand_def ds_def r_def Let_def)
  then have r: "r = [hd r]" by (cases r) simp_all
  have a: "all_digits ds"
    using p(1) by (simp add: all_digits_def ds_def list_all_iff) (meson set_takeWhileD)
  have "s = ds @ r" by (simp add: ds_def r_def)
  then have se: "s = ds @ [hd r]" using r by simp
  have "duration_of_string s =
     Some \<lparr>dur_string = Some s, dur_ms = of_int (int (digits_val 0 ds) * unit_ms (hd r))\<rparr>"
    unfolding se using duration_of_string_shorthand [OF a p(3), of "[]"] by simp
  then have "dur_ms d = of_int (int (digits_val 0 ds) * unit_ms (hd r))"
    using s(3) by simp
  then show thesis using that [OF a p(3)] s(1) se by simp
qed


lemma ms_unit_is_unit: "u \<in> set ''lsmhd'' \<Longrightarrow> u \<in> set ''smhdlun''"
  by auto

lemma ms_shorthand_unit_string:
  "all_digits ds \<Longrightarrow> u \<in> set ''lsmhd'' \<Longrightarrow> ds @ [u] \<in> unit_strings"
  unfolding unit_strings_def using ms_unit_is_unit by blast

lemma freq_ms_new_Period: "freq_ms (new_Period f off) = dur_ms f"
  by (simp add: freq_ms_def new_Period_def)

lemma decode_build:
  assumes f: "all_digits ds2" "u2 \<in> set ''lsmhd''" and o: "list_all all_digits offs"
    and it: "iters = [] \<or> iters = [ds1 @ [u1]]" and d: "all_digits ds1" "u1 \<in> set ''lsmhd''"
  obtains p dd where
    "decodeIndexString (build_index_string iters (ds2 @ [u2]) offs (nat_string k)) =
       Inr (Some \<lparr>decodedPeriod = p, decodedDuration = dd, decodedIndex = int k\<rparr>)"
    and "freq_ms p = of_int (int (digits_val 0 ds2) * unit_ms u2)"
    and "dur_ms dd = (if iters = [] then of_int (int (digits_val 0 ds2) * unit_ms u2)
                      else of_int (int (digits_val 0 ds1) * unit_ms u1))"
proof -
  define fd where "fd = \<lparr>dur_string = Some (ds2 @ [u2]), dur_ms = of_int (int (digits_val 0 ds2) * unit_ms u2)\<rparr>"
  define offopt where "offopt = (if offs = [] then None else Some (last offs))"
  define p where "p = new_Period fd (case offopt of
        Some off \<Rightarrow> Option.bind (parseInt off) (\<lambda>n. new_Time (of_int n)) | None \<Rightarrow> None)"
  define dd where "dd = (if iters = [] then fd
      else \<lparr>dur_string = Some (ds1 @ u1 # ''@''), dur_ms = of_int (int (digits_val 0 ds1) * unit_ms u1)\<rparr>)"
  have its: "set iters \<subseteq> unit_strings"
    using it ms_shorthand_unit_string [OF d] by auto
  have ex: "indexStringRegex_exec (build_index_string iters (ds2 @ [u2]) offs (nat_string k)) =
     Some (if iters = [] then None else Some (last iters @ ''@''), ds2 @ [u2], offopt, nat_string k)"
    unfolding offopt_def
    using exec_build [OF its f(1) ms_unit_is_unit [OF f(2)] o all_digits_nat_string] .
  have df: "duration_of_string (ds2 @ [u2]) = Some fd"
    using duration_of_string_shorthand [OF f, of "[]"] by (simp add: fd_def)
  have pf: "p_frequency p = fd" by (simp add: p_def new_Period_def)
  have "decodeIndexString (build_index_string iters (ds2 @ [u2]) offs (nat_string k)) =
       Inr (Some \<lparr>decodedPeriod = p, decodedDuration = dd, decodedIndex = int k\<rparr>)"
  proof (cases "iters = []")
    case True
    then show ?thesis
      unfolding decodeIndexString_def ex
      by (simp add: df Let_def p_def [symmetric] pf dd_def parseInt_nat_string)
  next
    case False
    then have i1: "iters = [ds1 @ [u1]]" using it by simp
    have "duration_of_string (last iters @ ''@'') = Some dd"
      using duration_of_string_shorthand [OF d, of "''@''"] by (simp add: dd_def i1)
    then show ?thesis
      unfolding decodeIndexString_def ex using False
      by (simp add: df Let_def p_def [symmetric] parseInt_nat_string)
  qed
  moreover have "freq_ms p = of_int (int (digits_val 0 ds2) * unit_ms u2)"
    unfolding p_def freq_ms_new_Period by (simp add: fd_def)
  moreover have "dur_ms dd = (if iters = [] then of_int (int (digits_val 0 ds2) * unit_ms u2)
                      else of_int (int (digits_val 0 ds1) * unit_ms u1))"
    by (simp add: dd_def fd_def)
  ultimately show thesis using that by blast
qed

lemma build_split_dash:
  assumes its: "set iters \<subseteq> unit_strings" and fr: "freq \<in> unit_strings"
    and o: "list_all all_digits offs" and i: "all_digits idx"
  shows "length (split_on CHR ''-'' (build_index_string iters freq offs idx)) = 2"
proof -
  define pre where "pre = concat (map (\<lambda>x. x @ ''@'') iters) @ freq @ concat (map (\<lambda>x. CHR ''+'' # x) offs)"
  have "CHR ''-'' \<notin> set (concat (map (\<lambda>x. x @ ''@'') iters))"
    using its unit_strings_no_sep(3) by auto
  then have "CHR ''-'' \<notin> set pre"
    using unit_strings_no_sep(3) [OF fr] offsets_no_sep(2) [OF o] by (simp add: pre_def)
  then have "split_on CHR ''-'' (pre @ CHR ''-'' # idx) = [pre, idx]"
    using all_digits_no_sep(3) [OF i] by (simp add: split_on_append split_on_notin)
  moreover have "build_index_string iters freq offs idx = pre @ CHR ''-'' # idx"
    by (simp add: build_index_string_def pre_def)
  ultimately show ?thesis by simp
qed

lemma build_isIndexString:
  assumes "set iters \<subseteq> unit_strings" and "freq \<in> unit_strings"
    and "list_all all_digits offs" and "all_digits idx"
  shows "isIndexString (build_index_string iters freq offs idx)"
  unfolding isIndexString_def matches_lang lang_indexStringRegex
  using assms by (intro exI [of _ iters] exI [of _ freq] exI [of _ offs] exI [of _ idx]) simp


lemma unit_ms_pos: "0 < unit_ms u"
  by (simp add: unit_ms_def)

lemma timeRange_build:
  assumes f: "all_digits ds2" "u2 \<in> set ''lsmhd''" and o: "list_all all_digits offs"
    and it: "iters = [] \<or> iters = [ds1 @ [u1]]" and d: "all_digits ds1" "u1 \<in> set ''lsmhd''"
    and hi: "int k * (int (digits_val 0 ds2) * unit_ms u2)
               + (if iters = [] then int (digits_val 0 ds2) * unit_ms u2
                  else int (digits_val 0 ds1) * unit_ms u1) \<le> MAX_DATE"
  shows "timeRangeFromIndexString cal (build_index_string iters (ds2 @ [u2]) offs (nat_string k)) =
     Inr (Some \<lparr>tr_begin = int k * (int (digits_val 0 ds2) * unit_ms u2),
                 tr_end = int k * (int (digits_val 0 ds2) * unit_ms u2)
                   + (if iters = [] then int (digits_val 0 ds2) * unit_ms u2
                      else int (digits_val 0 ds1) * unit_ms u1)\<rparr>)"
proof -
  let ?s = "build_index_string iters (ds2 @ [u2]) offs (nat_string k)"
  define F where "F = int (digits_val 0 ds2) * unit_ms u2"
  define D where "D = (if iters = [] then int (digits_val 0 ds2) * unit_ms u2
                      else int (digits_val 0 ds1) * unit_ms u1)"
  have F0: "0 \<le> F" using unit_ms_pos [of u2] by (simp add: F_def)
  have D0: "0 \<le> D" using unit_ms_pos [of u2] unit_ms_pos [of u1] by (simp add: D_def)
  have kF0: "0 \<le> int k * F" using F0 by simp
  have hi': "int k * F + D \<le> MAX_DATE" using hi by (simp only: F_def D_def)
  have its: "set iters \<subseteq> unit_strings"
    using it ms_shorthand_unit_string [OF d] by auto
  have fr: "ds2 @ [u2] \<in> unit_strings" using ms_shorthand_unit_string [OF f] .
  have len: "length (split_on CHR ''-'' ?s) = 2"
    using build_split_dash [OF its fr o all_digits_nat_string] .
  have isi: "isIndexString ?s"
    using build_isIndexString [OF its fr o all_digits_nat_string] .
  obtain p dd where dec: "decodeIndexString ?s =
       Inr (Some \<lparr>decodedPeriod = p, decodedDuration = dd, decodedIndex = int k\<rparr>)"
    and pf0: "freq_ms p = of_int (int (digits_val 0 ds2) * unit_ms u2)"
    and dv0: "dur_ms dd = (if iters = [] then of_int (int (digits_val 0 ds2) * unit_ms u2)
                      else of_int (int (digits_val 0 ds1) * unit_ms u1))"
    using decode_build [OF f o it d, of k] by blast
  have pf: "freq_ms p = of_int F" using pf0 by (simp only: F_def)
  have dv: "dur_ms dd = of_int D" using dv0 by (simp add: D_def)
  have "\<bar>int k * F\<bar> \<le> MAX_DATE" using kF0 D0 hi' by linarith
  then have b: "new_Date (of_int (int k * F)) = Some (int k * F)" by (rule new_Date_valid)
  have "\<bar>int k * F + D\<bar> \<le> MAX_DATE" using kF0 D0 hi' by linarith
  then have e: "new_Date (of_int (int k * F + D)) = Some (int k * F + D)" by (rule new_Date_valid)
  have r1: "of_int (int k) * freq_ms p = (of_int (int k * F) :: real)"
    by (simp add: pf)
  have r2: "of_int (int k * F) + dur_ms dd = (of_int (int k * F + D) :: real)"
    by (simp add: dv)
  have sel: "decodedIndex \<lparr>decodedPeriod = p, decodedDuration = dd, decodedIndex = int k\<rparr> = int k"
      "decodedPeriod \<lparr>decodedPeriod = p, decodedDuration = dd, decodedIndex = int k\<rparr> = p"
      "decodedDuration \<lparr>decodedPeriod = p, decodedDuration = dd, decodedIndex = int k\<rparr> = dd"
    by simp_all
  have two: "(2::nat) \<noteq> 3" by simp
  have "timeRangeFromIndexString cal ?s =
     Inr (Some \<lparr>tr_begin = int k * F, tr_end = int k * F + D\<rparr>)"
    unfolding timeRangeFromIndexString_def Let_def len
    by (simp only: two if_False refl if_True isi dec sum.case option.case prod.case sel r1 r2 b e)
  then show ?thesis by (simp only: F_def D_def)
qed

lemma duration_toString_shorthand:
  "dur_string d = Some (ds @ [u]) \<Longrightarrow> duration_toString str d = ds @ [u]"
  by (simp add: duration_toString_def)

lemma int_string_nonneg: "0 \<le> k \<Longrightarrow> int_string k = nat_string (nat k)"
  by (simp add: int_string_def)

lemma index_string_build:
  assumes d: "dur_string (w_duration w) = Some (ds1 @ [u1])"
    and f: "dur_string (p_frequency (w_period w)) = Some (ds2 @ [u2])"
    and off: "0 \<le> p_offset (w_period w)" and k: "0 \<le> k"
  shows "index_string str w k =
     build_index_string (if freq_ms (w_period w) = dur_ms (w_duration w) then [] else [ds1 @ [u1]])
       (ds2 @ [u2])
       (if p_offset (w_period w) = 0 then [] else [nat_string (nat (p_offset (w_period w)))])
       (nat_string (nat k))"
  using off k
  by (simp add: index_string_def window_toString_def period_toString_def build_index_string_def
      duration_toString_shorthand [OF d] duration_toString_shorthand [OF f] int_string_nonneg)

section \<open>Index strings of a window, decoded\<close>

text \<open>
  Claim C2 fails for a window of one week. \<open>duration("1w")\<close> is a duration of
  604800000 ms, and the window built from it gives the instant 1209600000 (two weeks
  after the epoch) the one index \<open>1w-2\<close>. The decoder does not accept that string:
  \<open>isIndexString\<close> is false for it, \<open>decodeIndexString\<close> throws, and
  \<open>timeRangeFromIndexString\<close> takes it for a month of a year, the second month of the
  year 1 of the calendar, where the claim has the range from 1209600000 to 1814400000.
\<close>

theorem week_index_not_decoded:
  "duration_of_string ''1w'' = Some \<lparr>dur_string = Some ''1w'', dur_ms = 604800000\<rparr>
   \<and> getIndexSet (\<lambda>x. x) str (new_Window \<lparr>dur_string = Some ''1w'', dur_ms = 604800000\<rparr> None)
         1209600000 1209600000 = Some [''1w-2'']
   \<and> \<not> isIndexString ''1w-2''
   \<and> decodeIndexString ''1w-2'' = Inl (TypeError ''object null is not iterable'')
   \<and> timeRangeFromIndexString cal ''1w-2'' =
         Inr (case cal (Month 1 1) of Some (b, e) \<Rightarrow> Some \<lparr>tr_begin = b, tr_end = e\<rparr> | None \<Rightarrow> None)"
proof -
  have 1: "duration_of_string ''1w'' = Some \<lparr>dur_string = Some ''1w'', dur_ms = 604800000\<rparr>"
    by (simp add: duration_of_string_def is_digit_def SHORT_UNITS_def digit_val_def)
  have 2: "getIndexSet (\<lambda>x. x) str (new_Window \<lparr>dur_string = Some ''1w'', dur_ms = 604800000\<rparr> None)
         1209600000 1209600000 = Some [''1w-2'']"
    by (simp add: window_eval)
  have 3: "\<not> isIndexString ''1w-2''"
    by (simp add: isIndexString_def indexStringRegex_def digits_rexp_def Plus_def)
  have "indexStringRegex_exec ''1w-2'' = None"
    using 3 exec_iff_isIndexString [of "''1w-2''"] by blast
  then have 4: "decodeIndexString ''1w-2'' = Inl (TypeError ''object null is not iterable'')"
    by (simp add: decodeIndexString_def)
  have sp: "split_on CHR ''-'' ''1w-2'' = [''1w'', ''2'']"
    by simp
  have p1: "parseInt ''1w'' = Some 1" and p2: "parseInt ''2'' = Some 2"
    by (simp_all add: parseInt_def is_space_def is_digit_def digit_val_def)
  have 5: "timeRangeFromIndexString cal ''1w-2'' =
         Inr (case cal (Month 1 1) of Some (b, e) \<Rightarrow> Some \<lparr>tr_begin = b, tr_end = e\<rparr> | None \<Rightarrow> None)"
    unfolding timeRangeFromIndexString_def Let_def sp using 3 by (simp add: p1 p2)
  show ?thesis using 1 2 3 4 5 by (intro conjI)
qed
end
